theory Spec2Isabelle
  imports
    Complex_Main
    "HOL-Library.Sublist"
    "HOL-Library.Char_ord"
    "HOL-Library.List_Lexorder"
    "HOL-Library.Product_Lexorder"
    "HOL-Library.Multiset"
begin

section \<open>The cleaning script of airbnb.py as functions on a table\<close>

text \<open>
  The script \<^verbatim>\<open>src/airbnb.py\<close> runs once, top to bottom, over one pandas data frame
  \<^verbatim>\<open>df\<close>. The data frame is modelled as a record of its column labels and its rows; every
  statement of the script that reads or changes \<^verbatim>\<open>df\<close> is a function on that record, and
  every exception that stops the script is a value \<open>Inl e\<close>.

  What the model leaves out: the rendering of the charts (only the column lookups of the
  plotting calls are kept, because they can stop the script), console output, and the
  rounding of binary floating point (a numeric cell holds the exact rational it denotes,
  or an infinity). Strings are sequences of bytes; case folding and whitespace
  trimming act on the ASCII range and leave other bytes alone.
\<close>

subsection \<open>Cells and tables\<close>

datatype number = Fin rat | PosInf | NegInf

text \<open>A cell as \<^verbatim>\<open>read_csv\<close> yields it: missing (NaN), text, or a number.\<close>

datatype cell = Null | Str string | Num number

datatype error = KeyError string | ValueError string | TypeError | AttributeError

record table =
  columns :: "string list"
  rows :: "(string \<Rightarrow> cell) list"

definition then_do :: "error + 'a \<Rightarrow> ('a \<Rightarrow> error + 'b) \<Rightarrow> error + 'b" where
  "then_do m f = (case m of Inl e \<Rightarrow> Inl e | Inr x \<Rightarrow> f x)"

text \<open>\<^verbatim>\<open>df[c]\<close>: the series of a column, or KeyError.\<close>

definition get_col :: "table \<Rightarrow> string \<Rightarrow> error + cell list" where
  "get_col df c =
     (if c \<in> set (columns df) then Inr (map (\<lambda>r. r c) (rows df)) else Inl (KeyError c))"

text \<open>
  \<^verbatim>\<open>df[c] = series\<close>: overwrites the column when the label exists and appends a new
  column at the end otherwise. The series always comes from the same frame, so its
  values pair up with the rows by position.
\<close>

definition set_col :: "string \<Rightarrow> cell list \<Rightarrow> table \<Rightarrow> table" where
  "set_col c vs df =
     \<lparr>columns = (if c \<in> set (columns df) then columns df else columns df @ [c]),
      rows = map (\<lambda>(r, v). r(c := v)) (zip (rows df) vs)\<rparr>"

subsection \<open>Python string methods\<close>

definition lower_char :: "char \<Rightarrow> char" where
  "lower_char c =
     (case map_of (zip ''ABCDEFGHIJKLMNOPQRSTUVWXYZ'' ''abcdefghijklmnopqrstuvwxyz'') c of
        Some d \<Rightarrow> d
      | None \<Rightarrow> c)"

text \<open>\<^verbatim>\<open>str.lower()\<close>\<close>

definition lower :: "string \<Rightarrow> string" where
  "lower s = map lower_char s"

text \<open>The characters \<^verbatim>\<open>str.isspace()\<close> accepts in the ASCII range.\<close>

definition is_space :: "char \<Rightarrow> bool" where
  "is_space c =
     (c \<in> set [CHR 0x09, CHR 0x0A, CHR 0x0B, CHR 0x0C, CHR 0x0D,
               CHR 0x1C, CHR 0x1D, CHR 0x1E, CHR 0x1F, CHR '' ''])"

text \<open>\<^verbatim>\<open>str.strip()\<close>\<close>

definition strip :: "string \<Rightarrow> string" where
  "strip s = rev (dropWhile is_space (rev (dropWhile is_space s)))"

text \<open>
  \<^verbatim>\<open>str.replace(old, new)\<close>: every occurrence of \<open>old\<close>, found left to right without
  overlap, becomes \<open>new\<close>; an empty \<open>old\<close> matches before every character and at the end.
\<close>

function replace_str :: "string \<Rightarrow> string \<Rightarrow> string \<Rightarrow> string" where
  "replace_str old new s =
     (if old = [] then concat (map (\<lambda>c. new @ [c]) s) @ new
      else if s = [] then []
      else if prefix old s then new @ replace_str old new (drop (length old) s)
      else hd s # replace_str old new (tl s))"
  by pat_completeness auto
termination
  by (relation "measure (\<lambda>(old, new, s). length s)") auto

declare replace_str.simps [simp del]

subsection \<open>Section 3 of the script: clean column names\<close>

text \<open>
  \<^verbatim>\<open>df.columns.str.lower().str.strip().str.replace(" ", "_")
      .str.replace("neighbourhood", "neighborhood")\<close>, for one label.
\<close>

definition normalize_name :: "string \<Rightarrow> string" where
  "normalize_name s =
     replace_str ''neighbourhood'' ''neighborhood''
       (replace_str '' '' ''_'' (strip (lower s)))"

text \<open>
  Assigning \<^verbatim>\<open>df.columns\<close> relabels the columns in place: the cell under a new label
  is the cell of the column that now carries it. A row is a mapping from label to cell,
  so the model covers frames whose labels stay distinct.
\<close>

definition relabel :: "(string \<Rightarrow> string) \<Rightarrow> string list \<Rightarrow> (string \<Rightarrow> cell) \<Rightarrow> string \<Rightarrow> cell" where
  "relabel f cols r c' = (case find (\<lambda>c. f c = c') cols of Some c \<Rightarrow> r c | None \<Rightarrow> Null)"

definition clean_column_names :: "table \<Rightarrow> table" where
  "clean_column_names df =
     \<lparr>columns = map normalize_name (columns df),
      rows = map (relabel normalize_name (columns df)) (rows df)\<rparr>"

subsection \<open>Section 4 of the script: remove unnecessary columns\<close>

definition columns_to_drop :: "string list" where
  "columns_to_drop = [''host_id'', ''id'', ''country'', ''country_code'']"

text \<open>\<^verbatim>\<open>df.drop(columns=[col for col in columns_to_drop if col in df.columns])\<close>\<close>

definition drop_columns :: "table \<Rightarrow> table" where
  "drop_columns df =
     df\<lparr>columns :=
          filter (\<lambda>c. c \<notin> set (filter (\<lambda>col. col \<in> set (columns df)) columns_to_drop))
            (columns df)\<rparr>"

subsection \<open>Section 6 of the script: remove duplicates\<close>

text \<open>Keeps the first element of every class of equal keys, in order.\<close>

fun keep_first :: "('a \<Rightarrow> 'k) \<Rightarrow> 'a list \<Rightarrow> 'a list" where
  "keep_first key [] = []"
| "keep_first key (x # xs) = x # keep_first key (filter (\<lambda>y. key y \<noteq> key x) xs)"

text \<open>
  \<^verbatim>\<open>df.drop_duplicates()\<close>: a row goes when an earlier row has the same cells in all
  columns (two missing cells count as the same). pandas returns a frame with no column
  or no row as it is.
\<close>

definition drop_duplicates :: "table \<Rightarrow> table" where
  "drop_duplicates df =
     (if columns df = [] \<or> rows df = [] then df
      else df\<lparr>rows := keep_first (\<lambda>r. map r (columns df)) (rows df)\<rparr>)"

subsection \<open>Section 7 of the script: clean numeric columns\<close>

text \<open>
  Python's \<^verbatim>\<open>float(str)\<close>, which \<^verbatim>\<open>astype(float)\<close> applies to every text cell:
  surrounding whitespace is ignored, underscores may stand between digits, and the rest
  is an optional sign before \<^verbatim>\<open>inf\<close>, \<^verbatim>\<open>infinity\<close>, \<^verbatim>\<open>nan\<close> (in any case) or a
  decimal number with an optional exponent. \<open>None\<close> is ValueError.
\<close>

definition is_digit :: "char \<Rightarrow> bool" where
  "is_digit c = (c \<in> set ''0123456789'')"

definition digit_val :: "char \<Rightarrow> nat" where
  "digit_val c =
     (case map_of (zip ''0123456789'' [0, 1, 2, 3, 4, 5, 6, 7, 8, 9]) c of
        Some d \<Rightarrow> d
      | None \<Rightarrow> 0)"

definition nat_of_digits :: "string \<Rightarrow> nat" where
  "nat_of_digits ds = foldl (\<lambda>a c. 10 * a + digit_val c) 0 ds"

text \<open>
  An underscore is accepted only after a digit and before a digit; \<open>prev\<close> is the
  character read last.
\<close>

fun drop_underscores :: "char \<Rightarrow> string \<Rightarrow> string option" where
  "drop_underscores prev [] = (if prev = CHR ''_'' then None else Some [])"
| "drop_underscores prev (c # cs) =
     (if c = CHR ''_'' then (if is_digit prev then drop_underscores c cs else None)
      else if prev = CHR ''_'' \<and> \<not> is_digit c then None
      else map_option ((#) c) (drop_underscores c cs))"

definition pow10 :: "int \<Rightarrow> rat" where
  "pow10 e = (if 0 \<le> e then 10 ^ nat e else 1 / 10 ^ nat (- e))"

text \<open>The exponent part: empty, or \<^verbatim>\<open>e\<close> or \<^verbatim>\<open>E\<close>, an optional sign, and digits.\<close>

definition parse_exponent :: "string \<Rightarrow> int option" where
  "parse_exponent s =
     (case s of
        [] \<Rightarrow> Some 0
      | c # r \<Rightarrow>
          if c = CHR ''e'' \<or> c = CHR ''E'' then
            (let neg = (r \<noteq> [] \<and> hd r = CHR ''-'');
                 ds = (if r \<noteq> [] \<and> (hd r = CHR ''-'' \<or> hd r = CHR ''+'') then tl r else r)
             in if ds \<noteq> [] \<and> list_all is_digit ds
                then Some (if neg then - int (nat_of_digits ds) else int (nat_of_digits ds))
                else None)
          else None)"

text \<open>An unsigned decimal: digits, an optional point and digits, an optional exponent.\<close>

definition parse_decimal :: "string \<Rightarrow> rat option" where
  "parse_decimal s =
     (let ip = takeWhile is_digit s;
          r1 = dropWhile is_digit s;
          point = (r1 \<noteq> [] \<and> hd r1 = CHR ''.'');
          fp = (if point then takeWhile is_digit (tl r1) else []);
          r2 = (if point then dropWhile is_digit (tl r1) else r1)
      in if ip = [] \<and> fp = [] then None
         else case parse_exponent r2 of
                None \<Rightarrow> None
              | Some e \<Rightarrow> Some (of_nat (nat_of_digits (ip @ fp)) * pow10 (e - int (length fp))))"

definition py_float :: "string \<Rightarrow> cell option" where
  "py_float s =
     (case drop_underscores (CHR 0x00) (strip s) of
        None \<Rightarrow> None
      | Some t \<Rightarrow>
          (let neg = (t \<noteq> [] \<and> hd t = CHR ''-'');
               body = (if t \<noteq> [] \<and> (hd t = CHR ''-'' \<or> hd t = CHR ''+'') then tl t else t)
           in if lower body = ''inf'' \<or> lower body = ''infinity''
              then Some (Num (if neg then NegInf else PosInf))
              else if lower body = ''nan'' then Some Null
              else case parse_decimal body of
                     None \<Rightarrow> None
                   | Some q \<Rightarrow> Some (Num (Fin (if neg then - q else q)))))"

text \<open>\<^verbatim>\<open>astype(float)\<close> on one cell: numbers and missing cells stay, text is parsed.\<close>

definition to_float :: "cell \<Rightarrow> error + cell" where
  "to_float c =
     (case c of
        Null \<Rightarrow> Inr Null
      | Num n \<Rightarrow> Inr (Num n)
      | Str s \<Rightarrow> (case py_float s of None \<Rightarrow> Inl (ValueError s) | Some v \<Rightarrow> Inr v))"

text \<open>An operation on every cell of a series; the first failure stops it.\<close>

fun traverse :: "('a \<Rightarrow> error + 'b) \<Rightarrow> 'a list \<Rightarrow> error + 'b list" where
  "traverse f [] = Inr []"
| "traverse f (x # xs) =
     (case f x of
        Inl e \<Rightarrow> Inl e
      | Inr y \<Rightarrow> (case traverse f xs of Inl e \<Rightarrow> Inl e | Inr ys \<Rightarrow> Inr (y # ys)))"

text \<open>\<^verbatim>\<open>.replace(r"[\$,]", "", regex=True)\<close> on one cell: only text is touched.\<close>

definition strip_currency :: "cell \<Rightarrow> cell" where
  "strip_currency c =
     (case c of
        Str s \<Rightarrow> Str (filter (\<lambda>x. x \<noteq> CHR ''$'' \<and> x \<noteq> CHR '','') s)
      | _ \<Rightarrow> c)"

definition clean_currency_column :: "table \<Rightarrow> string \<Rightarrow> error + cell list" where
  "clean_currency_column df column =
     then_do (get_col df column) (\<lambda>ser. traverse to_float (map strip_currency ser))"

definition clean_prices :: "table \<Rightarrow> error + table" where
  "clean_prices df =
     then_do
       (if ''price'' \<in> set (columns df)
        then then_do (clean_currency_column df ''price'') (\<lambda>ser. Inr (set_col ''price'' ser df))
        else Inr df)
       (\<lambda>df.
          if ''service_fee'' \<in> set (columns df)
          then then_do (clean_currency_column df ''service_fee'')
                 (\<lambda>ser. Inr (set_col ''service_fee'' ser df))
          else Inr df)"

definition numeric_columns :: "string list" where
  "numeric_columns =
     [''review_rate_number'', ''number_of_reviews'', ''reviews_per_month'',
      ''construction_year'', ''availability_365'']"

text \<open>
  \<^verbatim>\<open>pd.to_numeric(series, errors="coerce")\<close>. The grammar of numbers that pandas accepts
  is a parameter \<open>parse\<close>: it gives the number a text denotes, or \<open>None\<close> when the text
  does not parse (or denotes NaN); either way the cell becomes missing.
\<close>

definition to_numeric :: "(string \<Rightarrow> number option) \<Rightarrow> cell \<Rightarrow> cell" where
  "to_numeric parse c =
     (case c of
        Str s \<Rightarrow> (case parse s of Some n \<Rightarrow> Num n | None \<Rightarrow> Null)
      | _ \<Rightarrow> c)"

definition col_values :: "table \<Rightarrow> string \<Rightarrow> cell list" where
  "col_values df c = map (\<lambda>r. r c) (rows df)"

definition coerce_numeric_columns :: "(string \<Rightarrow> number option) \<Rightarrow> table \<Rightarrow> table" where
  "coerce_numeric_columns parse df =
     fold (\<lambda>col df.
             if col \<in> set (columns df)
             then set_col col (map (to_numeric parse) (col_values df col)) df
             else df)
       numeric_columns df"

subsection \<open>Section 8 of the script: feature engineering\<close>

text \<open>
  \<^verbatim>\<open>k - x\<close> on one cell: missing stays missing, and Python raises TypeError for text.
\<close>

definition rsub :: "rat \<Rightarrow> cell \<Rightarrow> error + cell" where
  "rsub k c =
     (case c of
        Null \<Rightarrow> Inr Null
      | Str s \<Rightarrow> Inl TypeError
      | Num n \<Rightarrow>
          Inr (Num (case n of Fin q \<Rightarrow> Fin (k - q) | PosInf \<Rightarrow> NegInf | NegInf \<Rightarrow> PosInf)))"

definition add_days_booked :: "table \<Rightarrow> error + table" where
  "add_days_booked df =
     (if ''availability_365'' \<in> set (columns df)
      then then_do (traverse (rsub 365) (col_values df ''availability_365''))
             (\<lambda>ser. Inr (set_col ''days_booked'' ser df))
      else Inr df)"

text \<open>
  \<^verbatim>\<open>str(x).lower() == "t"\<close>: \<^verbatim>\<open>str\<close> of a number or of NaN is never the letter t, so
  only a text cell can match.
\<close>

definition flag_is_t :: "cell \<Rightarrow> bool" where
  "flag_is_t x = (case x of Str s \<Rightarrow> lower s = ''t'' | _ \<Rightarrow> False)"

definition superhost_label :: "cell \<Rightarrow> cell" where
  "superhost_label x = (if flag_is_t x then Str ''Superhost'' else Str ''Regular Host'')"

definition add_is_superhost :: "table \<Rightarrow> table" where
  "add_is_superhost df =
     (if ''host_is_superhost'' \<in> set (columns df)
      then set_col ''is_superhost'' (map superhost_label (col_values df ''host_is_superhost'')) df
      else df)"

subsection \<open>Section 9 of the script: basic exploratory analysis\<close>

definition is_text :: "cell \<Rightarrow> bool" where
  "is_text c = (case c of Str s \<Rightarrow> True | _ \<Rightarrow> False)"

text \<open>
  \<^verbatim>\<open>series.str.lower()\<close>. The accessor exists for a text column; a column of one or more
  rows that holds no text at all was read as numbers (or NaN only), and \<^verbatim>\<open>.str\<close> raises
  AttributeError on it. Cells that are not text give NaN.
\<close>

definition str_lower :: "cell list \<Rightarrow> error + cell list" where
  "str_lower ser =
     (if ser \<noteq> [] \<and> \<not> list_ex is_text ser then Inl AttributeError
      else Inr (map (\<lambda>c. case c of Str s \<Rightarrow> Str (lower s) | _ \<Rightarrow> Null) ser))"

text \<open>
  \<^verbatim>\<open>series.value_counts().idxmax()\<close>: missing cells are not counted; the most frequent
  value is returned, and an empty count raises ValueError. Among values that tie for the
  highest count the model takes the one that appears first.
\<close>

definition idxmax_of_counts :: "cell list \<Rightarrow> error + cell" where
  "idxmax_of_counts ser =
     (let vals = filter (\<lambda>c. c \<noteq> Null) ser;
          counts = map (\<lambda>v. (v, count_list vals v)) (keep_first (\<lambda>v. v) vals)
      in case counts of
           [] \<Rightarrow> Inl (ValueError ''idxmax'')
         | p # ps \<Rightarrow> Inr (fst (fold (\<lambda>q best. if snd best < snd q then q else best) ps p)))"

definition strict_room :: "table \<Rightarrow> error + cell" where
  "strict_room df =
     then_do (str_lower (col_values df ''cancellation_policy''))
       (\<lambda>policy.
          idxmax_of_counts
            (map snd (filter (\<lambda>(p, room). p = Str ''strict'')
                        (zip policy (col_values df ''room_type'')))))"

text \<open>Keys that order numbers as pandas sorts them, and their negations.\<close>

definition num_key :: "number \<Rightarrow> int \<times> rat" where
  "num_key n = (case n of NegInf \<Rightarrow> (- 1, 0) | Fin q \<Rightarrow> (0, q) | PosInf \<Rightarrow> (1, 0))"

definition neg_key :: "number \<Rightarrow> int \<times> rat" where
  "neg_key n = (case n of NegInf \<Rightarrow> (1, 0) | Fin q \<Rightarrow> (0, - q) | PosInf \<Rightarrow> (- 1, 0))"

text \<open>
  The order of group keys (\<^verbatim>\<open>groupby\<close> sorts them): numbers by value, text by code
  unit. \<^verbatim>\<open>read_csv\<close> does not produce a column that mixes the two.
\<close>

definition group_order :: "cell \<Rightarrow> (int \<times> rat) \<times> string" where
  "group_order c =
     (case c of
        Null \<Rightarrow> ((- 2, 0), [])
      | Num n \<Rightarrow> (num_key n, [])
      | Str s \<Rightarrow> ((2, 0), s))"

definition numbers_of :: "cell list \<Rightarrow> number list" where
  "numbers_of ser = List.map_filter (\<lambda>c. case c of Num n \<Rightarrow> Some n | _ \<Rightarrow> None) ser"

text \<open>
  \<^verbatim>\<open>mean()\<close> of a numeric series: missing cells are skipped, no number at all gives NaN,
  and infinities of both signs add up to NaN.
\<close>

definition mean :: "cell list \<Rightarrow> cell" where
  "mean ser =
     (let ns = numbers_of ser in
      if ns = [] then Null
      else if PosInf \<in> set ns \<and> NegInf \<in> set ns then Null
      else if PosInf \<in> set ns then Num PosInf
      else if NegInf \<in> set ns then Num NegInf
      else Num (Fin (sum_list (map (\<lambda>n. case n of Fin q \<Rightarrow> q | _ \<Rightarrow> 0) ns)
                     / of_nat (length ns))))"

text \<open>
  \<^verbatim>\<open>df.groupby(by)[col].mean()\<close>: one entry per value of \<open>by\<close> that is not missing, keys
  in ascending order; KeyError when \<open>col\<close> is not a column.
\<close>

definition groupby_mean :: "string \<Rightarrow> string \<Rightarrow> table \<Rightarrow> error + (cell \<times> cell) list" where
  "groupby_mean by col df =
     (if col \<in> set (columns df)
      then Inr (map (\<lambda>k. (k, mean (map (\<lambda>r. r col) (filter (\<lambda>r. r by = k) (rows df)))))
                 (sort_key group_order
                    (keep_first (\<lambda>v. v) (filter (\<lambda>c. c \<noteq> Null) (col_values df by)))))
      else Inl (KeyError col))"

text \<open>
  The column lookups of a seaborn call with \<^verbatim>\<open>data=df\<close>: a name that is not a column
  raises ValueError. Rendering itself is not modelled.
\<close>

definition plot_columns :: "string list \<Rightarrow> table \<Rightarrow> error + unit" where
  "plot_columns cs df =
     (case filter (\<lambda>c. c \<notin> set (columns df)) cs of
        [] \<Rightarrow> Inr ()
      | c # _ \<Rightarrow> Inl (ValueError c))"

definition exploratory_analysis :: "table \<Rightarrow> error + unit" where
  "exploratory_analysis df =
     then_do
       (if ''cancellation_policy'' \<in> set (columns df) \<and> ''room_type'' \<in> set (columns df)
        then then_do (strict_room df) (\<lambda>_. Inr ())
        else Inr ())
       (\<lambda>_. if ''neighborhood_group'' \<in> set (columns df)
            then then_do (groupby_mean ''neighborhood_group'' ''price'' df) (\<lambda>_. Inr ())
            else Inr ())"

subsection \<open>Section 10 of the script: most and least expensive neighborhoods\<close>

definition avg_price_neighborhood :: "table \<Rightarrow> error + (cell \<times> cell) list" where
  "avg_price_neighborhood df = groupby_mean ''neighborhood'' ''price'' df"

definition valid_rows :: "(cell \<times> cell) list \<Rightarrow> (cell \<times> number) list" where
  "valid_rows tab =
     List.map_filter (\<lambda>(k, m). case m of Num n \<Rightarrow> Some (k, n) | _ \<Rightarrow> None) tab"

definition nan_rows :: "(cell \<times> cell) list \<Rightarrow> (cell \<times> cell) list" where
  "nan_rows tab = filter (\<lambda>(k, m). case m of Num n \<Rightarrow> False | _ \<Rightarrow> True) tab"

text \<open>
  \<^verbatim>\<open>nlargest(n, "price")\<close> and \<^verbatim>\<open>nsmallest(n, "price")\<close> with the default
  \<^verbatim>\<open>keep="first"\<close>: pandas negates the values for \<^verbatim>\<open>nlargest\<close>, sorts the rows whose
  value is not NaN with a stable sort, and takes the first \<open>n\<close>; rows with NaN follow
  only when fewer than \<open>n\<close> rows have a value.
\<close>

definition nlargest :: "nat \<Rightarrow> (cell \<times> cell) list \<Rightarrow> (cell \<times> cell) list" where
  "nlargest n tab =
     take n (map (\<lambda>(k, x). (k, Num x)) (sort_key (\<lambda>(k, x). neg_key x) (valid_rows tab))
             @ nan_rows tab)"

definition nsmallest :: "nat \<Rightarrow> (cell \<times> cell) list \<Rightarrow> (cell \<times> cell) list" where
  "nsmallest n tab =
     take n (map (\<lambda>(k, x). (k, Num x)) (sort_key (\<lambda>(k, x). num_key x) (valid_rows tab))
             @ nan_rows tab)"

definition top_10_expensive :: "(cell \<times> cell) list \<Rightarrow> (cell \<times> cell) list" where
  "top_10_expensive avg = nlargest 10 avg"

definition top_10_cheap :: "(cell \<times> cell) list \<Rightarrow> (cell \<times> cell) list" where
  "top_10_cheap avg = nsmallest 10 avg"

definition neighborhood_prices :: "table \<Rightarrow> error + unit" where
  "neighborhood_prices df =
     (if ''neighborhood'' \<in> set (columns df)
      then then_do (avg_price_neighborhood df)
             (\<lambda>avg. then_do (plot_columns [''room_type'', ''price''] df)
                       (\<lambda>_. plot_columns [''service_fee'', ''price''] df))
      else Inr ())"

subsection \<open>Sections 12 and 13 of the script: review rate, host category\<close>

text \<open>
  The box plot of line 220 is not guarded. The scatter plot after it is guarded by both
  of its columns, reads nothing else and changes nothing in \<^verbatim>\<open>df\<close>.
\<close>

definition review_rate_vs_price :: "table \<Rightarrow> error + unit" where
  "review_rate_vs_price df = plot_columns [''review_rate_number'', ''price''] df"

definition verified_label :: "cell \<Rightarrow> cell" where
  "verified_label x = (if flag_is_t x then Str ''Verified Host'' else Str ''Non-Verified Host'')"

definition superhost_analysis :: "table \<Rightarrow> error + table" where
  "superhost_analysis df =
     then_do (get_col df ''host_identity_verified'')
       (\<lambda>ser.
          let df' = set_col ''is_superhost'' (map verified_label ser) df in
          then_do (plot_columns [''is_superhost'', ''number_of_reviews''] df')
            (\<lambda>_. then_do (plot_columns [''is_superhost'', ''reviews_per_month''] df')
                    (\<lambda>_. Inr df')))"

subsection \<open>The whole script\<close>

text \<open>Sections 3 to 6: the frame before any cell is parsed.\<close>

definition prepare :: "table \<Rightarrow> table" where
  "prepare df = drop_duplicates (drop_columns (clean_column_names df))"

text \<open>Sections 7 and 8: the cleaned frame with its derived columns.\<close>

definition clean_and_derive :: "(string \<Rightarrow> number option) \<Rightarrow> table \<Rightarrow> error + table" where
  "clean_and_derive parse df =
     then_do (clean_prices (prepare df))
       (\<lambda>df. then_do (add_days_booked (coerce_numeric_columns parse df))
                (\<lambda>df. Inr (add_is_superhost df)))"

text \<open>
  The run from the loaded frame to the frame that is exported: \<open>Inr\<close> holds the table
  written by \<^verbatim>\<open>to_csv\<close> and \<^verbatim>\<open>to_excel\<close>, \<open>Inl\<close> the exception that stopped the script
  before it wrote anything.
\<close>

definition run :: "(string \<Rightarrow> number option) \<Rightarrow> table \<Rightarrow> error + table" where
  "run parse df =
     then_do (clean_and_derive parse df)
       (\<lambda>df. then_do (exploratory_analysis df)
          (\<lambda>_. then_do (neighborhood_prices df)
             (\<lambda>_. then_do (review_rate_vs_price df)
                (\<lambda>_. superhost_analysis df))))"

text \<open>What \<^verbatim>\<open>to_csv(index=False)\<close> writes: the header and the cells of each row.\<close>

definition to_csv :: "table \<Rightarrow> string list \<times> cell list list" where
  "to_csv df = (columns df, map (\<lambda>r. map r (columns df)) (rows df))"

text \<open>A string without whitespace at either end.\<close>

definition trimmed :: "string \<Rightarrow> bool" where
  "trimmed s = (s = [] \<or> (\<not> is_space (hd s) \<and> \<not> is_space (last s)))"

definition agree_off :: "string set \<Rightarrow> (string \<Rightarrow> cell) \<Rightarrow> (string \<Rightarrow> cell) \<Rightarrow> bool" where
  "agree_off W r r' = (\<forall>c. c \<notin> W \<longrightarrow> r' c = r c)"

definition priced :: "string \<Rightarrow> string list \<Rightarrow> (string \<Rightarrow> cell) \<Rightarrow> (string \<Rightarrow> cell) \<Rightarrow> bool" where
  "priced c cols r r' = (if c \<in> set cols then to_float (strip_currency (r c)) = Inr (r' c) else r' c = r c)"

definition written :: "string set" where
  "written = {''price'', ''service_fee''} \<union> set numeric_columns \<union> {''days_booked'', ''is_superhost''}"

text \<open>
  What sections 7 and 8 do to one row: \<open>r0\<close> is the row before, \<open>r\<close> the row after, and
  \<open>cols\<close> are the columns of the frame before.
\<close>

definition derived ::
  "string list \<Rightarrow> (string \<Rightarrow> number option) \<Rightarrow> (string \<Rightarrow> cell) \<Rightarrow> (string \<Rightarrow> cell) \<Rightarrow> bool" where
  "derived cols parse r0 r =
     (\<exists>r1 r3.
        agree_off {''price'', ''service_fee''} r0 r1
        \<and> priced ''price'' cols r0 r1 \<and> priced ''service_fee'' cols r0 r1
        \<and> (if ''availability_365'' \<in> set cols
            then \<exists>v. rsub 365 (to_numeric parse (r1 ''availability_365'')) = Inr v
                     \<and> r3 = (\<lambda>c. if c \<in> set numeric_columns \<and> c \<in> set cols
                                   then to_numeric parse (r1 c) else r1 c)(''days_booked'' := v)
            else r3 = (\<lambda>c. if c \<in> set numeric_columns \<and> c \<in> set cols
                            then to_numeric parse (r1 c) else r1 c))
        \<and> (if ''host_is_superhost'' \<in> set cols
            then r = r3(''is_superhost'' := superhost_label (r3 ''host_is_superhost''))
            else r = r3))"

definition currency_ok :: "cell \<Rightarrow> bool" where
  "currency_ok c = (\<not> isl (to_float (strip_currency c)))"

text \<open>
  Conditions on the frame after sections 3 to 6 under which no statement of the script
  raises: the currency cells parse, the columns that unguarded statements read are there,
  and the lookup of the strict policy is skipped.
\<close>

definition runnable :: "table \<Rightarrow> bool" where
  "runnable p =
     (list_all (\<lambda>c. c \<in> set (columns p))
        [''price'', ''review_rate_number'', ''host_identity_verified'',
         ''number_of_reviews'', ''reviews_per_month'']
      \<and> list_all currency_ok (col_values p ''price'')
      \<and> (if ''service_fee'' \<in> set (columns p)
          then list_all currency_ok (col_values p ''service_fee'') else True)
      \<and> (if ''cancellation_policy'' \<in> set (columns p) then ''room_type'' \<notin> set (columns p) else True)
      \<and> (if ''neighborhood'' \<in> set (columns p)
          then ''room_type'' \<in> set (columns p) \<and> ''service_fee'' \<in> set (columns p) else True))"

text \<open>
  A small frame in the shape of the data set: raw headers with spaces, currency text,
  one listing without availability.
\<close>

definition first_listing :: "string \<Rightarrow> cell" where
  "first_listing =
     (\<lambda>c. Null)
       (''price'' := Str ''$100.00'', ''service fee'' := Str ''$5'',
        ''availability 365'' := Num (Fin 300), ''host_is_superhost'' := Str ''t'',
        ''host_identity_verified'' := Str ''unconfirmed'', ''review rate number'' := Num (Fin 4),
        ''number of reviews'' := Num (Fin 9), ''reviews per month'' := Str ''0.21'')"

definition second_listing :: "string \<Rightarrow> cell" where
  "second_listing =
     (\<lambda>c. Null)
       (''price'' := Str ''$1,234.50'', ''service fee'' := Str ''$0'',
        ''host_is_superhost'' := Str ''f'',
        ''host_identity_verified'' := Str ''T'', ''review rate number'' := Num (Fin 5),
        ''number of reviews'' := Num (Fin 0))"

definition listing_example :: table where
  "listing_example =
     \<lparr>columns = [''price'', ''service fee'', ''availability 365'', ''host_is_superhost'',
                 ''host_identity_verified'', ''review rate number'', ''number of reviews'',
                 ''reviews per month''],
      rows = [first_listing, second_listing]\<rparr>"

text \<open>A frame with a cancellation policy column in which no listing is under the strict policy.\<close>

definition no_strict_example :: table where
  "no_strict_example =
     \<lparr>columns = [''cancellation_policy'', ''room type''],
      rows = [(\<lambda>c. Null)(''cancellation_policy'' := Str ''Moderate'', ''room type'' := Str ''Private room'')]\<rparr>"




text \<open>
  Frames of twenty neighborhoods, one listing each: in the first every price is 100, in
  the second the prices are 1 to 20.
\<close>

definition priced_listing :: "string \<Rightarrow> rat \<Rightarrow> string \<Rightarrow> cell" where
  "priced_listing n p = (\<lambda>c. Null)(''neighborhood'' := Str n, ''price'' := Num (Fin p))"

definition ties_example :: table where
  "ties_example =
     \<lparr>columns = [''neighborhood'', ''price''],
      rows = map (\<lambda>n. priced_listing n 100)
        [''a'', ''b'', ''c'', ''d'', ''e'', ''f'', ''g'', ''h'', ''i'', ''j'',
         ''k'', ''l'', ''m'', ''n'', ''o'', ''p'', ''q'', ''r'', ''s'', ''t'']\<rparr>"

definition spread_example :: table where
  "spread_example =
     \<lparr>columns = [''neighborhood'', ''price''],
      rows = map (\<lambda>(n, p). priced_listing n p)
        [(''a'', 1), (''b'', 2), (''c'', 3), (''d'', 4), (''e'', 5), (''f'', 6), (''g'', 7),
         (''h'', 8), (''i'', 9), (''j'', 10), (''k'', 11), (''l'', 12), (''m'', 13), (''n'', 14),
         (''o'', 15), (''p'', 16), (''q'', 17), (''r'', 18), (''s'', 19), (''t'', 20)]\<rparr>"

section \<open>Properties\<close>

subsection \<open>String replacement\<close>

lemma replace_str_Nil [simp]: "old \<noteq> [] \<Longrightarrow> replace_str old new [] = []"
  by (simp add: replace_str.simps)

lemma replace_str_hit:
  "old \<noteq> [] \<Longrightarrow> prefix old s \<Longrightarrow>
   replace_str old new s = new @ replace_str old new (drop (length old) s)"
  by (subst replace_str.simps) auto

lemma replace_str_miss:
  "old \<noteq> [] \<Longrightarrow> \<not> prefix old (c # cs) \<Longrightarrow>
   replace_str old new (c # cs) = c # replace_str old new cs"
  by (subst replace_str.simps) auto

lemma replace_str_single:
  "replace_str [a] [b] s = map (\<lambda>x. if x = a then b else x) s"
proof (induction s)
  case Nil
  show ?case by simp
next
  case (Cons c cs)
  show ?case
  proof (cases "c = a")
    case True
    then show ?thesis using Cons by (simp add: replace_str_hit)
  next
    case False
    then show ?thesis using Cons by (simp add: replace_str_miss)
  qed
qed

lemma replace_str_eq_Nil:
  assumes "old \<noteq> []" "new \<noteq> []"
  shows "(replace_str old new s = []) = (s = [])"
proof (cases s)
  case Nil
  then show ?thesis using assms by simp
next
  case (Cons c cs)
  then show ?thesis using assms
    by (cases "prefix old s") (simp_all add: replace_str_hit replace_str_miss)
qed

lemma set_replace_str:
  assumes "old \<noteq> []"
  shows "set (replace_str old new s) \<subseteq> set s \<union> set new"
proof (induction s rule: length_induct)
  case (1 s)
  show ?case
  proof (cases s)
    case Nil
    then show ?thesis using assms by simp
  next
    case (Cons c cs)
    show ?thesis
    proof (cases "prefix old s")
      case True
      have "length (drop (length old) s) < length s" using assms Cons by simp
      then have "set (replace_str old new (drop (length old) s))
                 \<subseteq> set (drop (length old) s) \<union> set new"
        using 1 by blast
      moreover have "set (drop (length old) s) \<subseteq> set s" by (rule set_drop_subset)
      ultimately show ?thesis using True assms by (auto simp: replace_str_hit)
    next
      case False
      have "set (replace_str old new cs) \<subseteq> set cs \<union> set new" using 1 Cons by simp
      then show ?thesis using False assms Cons by (auto simp: replace_str_miss)
    qed
  qed
qed

subsection \<open>Header normalization\<close>

lemma fold_prefix_back:
  "CHR ''n'' \<notin> set w \<Longrightarrow>
   prefix w (replace_str ''neighbourhood'' ''neighborhood'' s) \<Longrightarrow> prefix w s"
proof (induction s arbitrary: w)
  case Nil
  then show ?case by simp
next
  case (Cons c cs)
  show ?case
  proof (cases "prefix ''neighbourhood'' (c # cs)")
    case True
    then have "replace_str ''neighbourhood'' ''neighborhood'' (c # cs) =
        ''neighborhood'' @ replace_str ''neighbourhood'' ''neighborhood'' (drop (length ''neighbourhood'') (c # cs))"
      by (simp add: replace_str_hit)
    then have "prefix w (CHR ''n'' # ''eighborhood'' @
        replace_str ''neighbourhood'' ''neighborhood'' (drop (length ''neighbourhood'') (c # cs)))"
      using Cons.prems(2) by simp
    then have "w = []" using Cons.prems(1) by (cases w) auto
    then show ?thesis by simp
  next
    case False
    then have "replace_str ''neighbourhood'' ''neighborhood'' (c # cs) =
        c # replace_str ''neighbourhood'' ''neighborhood'' cs"
      by (simp add: replace_str_miss)
    then show ?thesis using Cons by (cases w) auto
  qed
qed

lemma fold_skip_rep:
  "replace_str ''neighbourhood'' ''neighborhood'' (''neighborhood'' @ t) =
   ''neighborhood'' @ replace_str ''neighbourhood'' ''neighborhood'' t"
  by (simp add: replace_str_miss)

lemma fold_spelling_idem:
  "replace_str ''neighbourhood'' ''neighborhood'' (replace_str ''neighbourhood'' ''neighborhood'' s) =
   replace_str ''neighbourhood'' ''neighborhood'' s"
proof (induction s rule: length_induct)
  case (1 s)
  show ?case
  proof (cases s)
    case Nil
    then show ?thesis by simp
  next
    case (Cons c cs)
    show ?thesis
    proof (cases "prefix ''neighbourhood'' s")
      case True
      let ?t = "replace_str ''neighbourhood'' ''neighborhood'' (drop (length ''neighbourhood'') s)"
      have "length (drop (length ''neighbourhood'') s) < length s" using Cons by simp
      then have ih: "replace_str ''neighbourhood'' ''neighborhood'' ?t = ?t" using 1 by blast
      have "replace_str ''neighbourhood'' ''neighborhood'' s = ''neighborhood'' @ ?t"
        using True by (simp add: replace_str_hit)
      then show ?thesis using ih fold_skip_rep by simp
    next
      case False
      have ih: "replace_str ''neighbourhood'' ''neighborhood'' (replace_str ''neighbourhood'' ''neighborhood'' cs)
          = replace_str ''neighbourhood'' ''neighborhood'' cs"
        using 1 Cons by simp
      have miss: "replace_str ''neighbourhood'' ''neighborhood'' s =
          c # replace_str ''neighbourhood'' ''neighborhood'' cs"
        using False Cons by (simp add: replace_str_miss)
      have "\<not> prefix ''neighbourhood'' (c # replace_str ''neighbourhood'' ''neighborhood'' cs)"
      proof
        assume a: "prefix ''neighbourhood'' (c # replace_str ''neighbourhood'' ''neighborhood'' cs)"
        have c: "c = CHR ''n''" using a by simp
        have "prefix ''eighbourhood'' (replace_str ''neighbourhood'' ''neighborhood'' cs)"
          using a [unfolded Cons_prefix_Cons] by (rule conjunct2)
        then have "prefix ''eighbourhood'' cs" by (rule fold_prefix_back [rotated]) simp
        then show False using False Cons c by simp
      qed
      then show ?thesis using miss ih by (simp add: replace_str_miss)
    qed
  qed
qed

lemma strip_trimmed_id: "trimmed s \<Longrightarrow> strip s = s"
proof -
  assume t: "trimmed s"
  have a: "dropWhile is_space s = s"
    using t unfolding dropWhile_eq_self_iff trimmed_def by blast
  have "dropWhile is_space (rev s) = rev s"
    using t unfolding dropWhile_eq_self_iff trimmed_def hd_rev by auto
  then show ?thesis using a by (simp add: strip_def)
qed

lemma last_dropWhile_keep: "dropWhile P xs \<noteq> [] \<Longrightarrow> last (dropWhile P xs) = last xs"
proof -
  assume a: "dropWhile P xs \<noteq> []"
  have "xs = takeWhile P xs @ dropWhile P xs" by simp
  then have "last xs = last (takeWhile P xs @ dropWhile P xs)" by simp
  also have "\<dots> = last (dropWhile P xs)" using a by (rule last_appendR)
  finally show ?thesis by simp
qed

lemma trimmed_strip: "trimmed (strip s)"
proof -
  let ?a = "dropWhile is_space s"
  let ?b = "dropWhile is_space (rev ?a)"
  show ?thesis
  proof (cases "?b = []")
    case True
    then show ?thesis by (simp add: strip_def trimmed_def)
  next
    case False
    have hb: "\<not> is_space (hd ?b)" using False by (rule hd_dropWhile)
    have "last ?b = last (rev ?a)" using False by (rule last_dropWhile_keep)
    moreover have an: "?a \<noteq> []"
    proof
      assume "?a = []"
      then show False using False by (metis dropWhile.simps(1) rev.simps(1))
    qed
    ultimately have lb: "last ?b = hd ?a" by (simp add: last_rev)
    have "\<not> is_space (hd ?a)" using an by (rule hd_dropWhile)
    then have "\<not> is_space (last ?b)" using lb by simp
    then show ?thesis using hb False by (simp add: strip_def trimmed_def hd_rev last_rev)
  qed
qed

lemma trimmed_map:
  assumes "trimmed s" "\<And>c. \<not> is_space c \<Longrightarrow> \<not> is_space (f c)"
  shows "trimmed (map f s)"
proof (cases "s = []")
  case True
  then show ?thesis by (simp add: trimmed_def)
next
  case False
  then have "hd (map f s) = f (hd s)" and "last (map f s) = f (last s)"
    by (simp_all add: hd_map last_map)
  moreover have "\<not> is_space (hd s)" and "\<not> is_space (last s)"
    using assms(1) False unfolding trimmed_def by blast+
  ultimately show ?thesis using assms(2) unfolding trimmed_def by simp
qed

lemma hd_fold_spelling:
  assumes "s \<noteq> []"
  shows "hd (replace_str ''neighbourhood'' ''neighborhood'' s) = hd s"
proof (cases "prefix ''neighbourhood'' s")
  case True
  then obtain zs where zs: "s = ''neighbourhood'' @ zs" by (auto simp: prefix_def)
  have "replace_str ''neighbourhood'' ''neighborhood'' s =
        ''neighborhood'' @ replace_str ''neighbourhood'' ''neighborhood'' (drop (length ''neighbourhood'') s)"
    using True by (intro replace_str_hit) simp_all
  then show ?thesis using zs by simp
next
  case False
  obtain c cs where s: "s = c # cs" using assms by (cases s) auto
  have "replace_str ''neighbourhood'' ''neighborhood'' (c # cs) =
        c # replace_str ''neighbourhood'' ''neighborhood'' cs"
    using False unfolding s by (intro replace_str_miss) simp_all
  then show ?thesis using s by simp
qed

lemma last_fold_spelling:
  "s \<noteq> [] \<Longrightarrow> last (replace_str ''neighbourhood'' ''neighborhood'' s) = last s"
proof (induction s rule: length_induct)
  case (1 s)
  then obtain c cs where s: "s = c # cs" by (cases s) auto
  show ?case
  proof (cases "prefix ''neighbourhood'' s")
    case True
    let ?rest = "drop (length ''neighbourhood'') s"
    have eq: "replace_str ''neighbourhood'' ''neighborhood'' s =
        ''neighborhood'' @ replace_str ''neighbourhood'' ''neighborhood'' ?rest"
      using True by (simp add: replace_str_hit)
    from True obtain zs where zs: "s = ''neighbourhood'' @ zs" by (auto simp: prefix_def)
    then have rest: "?rest = zs" by simp
    show ?thesis
    proof (cases "zs = []")
      case True
      then show ?thesis using eq zs rest by simp
    next
      case False
      have "length zs < length s" using zs by simp
      then have "last (replace_str ''neighbourhood'' ''neighborhood'' zs) = last zs"
        using 1 False by blast
      moreover have "replace_str ''neighbourhood'' ''neighborhood'' zs \<noteq> []"
        using False by (simp add: replace_str_eq_Nil)
      ultimately show ?thesis using eq zs rest False by simp
    qed
  next
    case False
    have eq: "replace_str ''neighbourhood'' ''neighborhood'' s =
        c # replace_str ''neighbourhood'' ''neighborhood'' cs"
      using False s by (simp add: replace_str_miss)
    show ?thesis
    proof (cases "cs = []")
      case True
      then show ?thesis using eq s by simp
    next
      case False
      have "last (replace_str ''neighbourhood'' ''neighborhood'' cs) = last cs"
        using 1 False s by simp
      moreover have "replace_str ''neighbourhood'' ''neighborhood'' cs \<noteq> []"
        using False by (simp add: replace_str_eq_Nil)
      ultimately show ?thesis using eq s False by simp
    qed
  qed
qed

lemma trimmed_fold_spelling:
  "trimmed s \<Longrightarrow> trimmed (replace_str ''neighbourhood'' ''neighborhood'' s)"
  by (cases "s = []") (simp_all add: trimmed_def hd_fold_spelling last_fold_spelling replace_str_eq_Nil)

lemma lower_char_idem: "lower_char (lower_char c) = lower_char c"
  by (simp add: lower_char_def split: option.splits if_splits)

lemma lower_char_underscore: "lower_char (CHR ''_'') = CHR ''_''"
  by (simp add: lower_char_def)

lemma lower_char_canonical: "c \<in> set ''neighborhood'' \<Longrightarrow> lower_char c = c"
proof -
  have "list_all (\<lambda>c. lower_char c = c) ''neighborhood''"
    by (simp add: lower_char_def)
  then show "c \<in> set ''neighborhood'' \<Longrightarrow> lower_char c = c"
    unfolding list_all_iff by blast
qed

lemma lower_fixed: "\<forall>c\<in>set s. lower_char c = c \<Longrightarrow> lower s = s"
  by (simp add: lower_def map_idI)

lemma set_strip: "set (strip s) \<subseteq> set s"
proof
  fix x assume "x \<in> set (strip s)"
  then have "x \<in> set (dropWhile is_space (rev (dropWhile is_space s)))"
    by (simp add: strip_def)
  then have "x \<in> set (rev (dropWhile is_space s))" by (rule set_dropWhileD)
  then have "x \<in> set (dropWhile is_space s)" by simp
  then show "x \<in> set s" by (rule set_dropWhileD)
qed

lemma normalize_name_idem: "normalize_name (normalize_name s) = normalize_name s"
proof -
  let ?a = "strip (lower s)"
  let ?b = "replace_str '' '' ''_'' ?a"
  let ?r = "replace_str ''neighbourhood'' ''neighborhood'' ?b"
  have b_map: "?b = map (\<lambda>x. if x = CHR '' '' then CHR ''_'' else x) ?a"
    by (rule replace_str_single)
  have a_low: "\<forall>c\<in>set ?a. lower_char c = c"
    using set_strip [of "lower s"] by (auto simp: lower_def lower_char_idem)
  have b_low: "\<forall>c\<in>set ?b. lower_char c = c"
    using a_low by (auto simp: b_map lower_char_underscore)
  have b_nosp: "CHR '' '' \<notin> set ?b" by (auto simp: b_map)
  have r_sub: "set ?r \<subseteq> set ?b \<union> set ''neighborhood''" by (rule set_replace_str) simp
  have r_low: "\<forall>c\<in>set ?r. lower_char c = c"
  proof
    fix c assume "c \<in> set ?r"
    then have "c \<in> set ?b \<or> c \<in> set ''neighborhood''" using r_sub by blast
    then show "lower_char c = c" using b_low lower_char_canonical by blast
  qed
  have r_nosp: "CHR '' '' \<notin> set ?r" using r_sub b_nosp by auto
  have "trimmed ?a" by (rule trimmed_strip)
  then have "trimmed ?b" unfolding b_map by (rule trimmed_map) (simp add: is_space_def)
  then have r_trim: "trimmed ?r" by (rule trimmed_fold_spelling)
  have 1: "lower ?r = ?r" using r_low by (rule lower_fixed)
  have 2: "strip ?r = ?r" using r_trim by (rule strip_trimmed_id)
  have 3: "replace_str '' '' ''_'' ?r = ?r"
  proof -
    have "replace_str '' '' ''_'' ?r = map (\<lambda>x. if x = CHR '' '' then CHR ''_'' else x) ?r"
      by (rule replace_str_single)
    also have "\<dots> = ?r" using r_nosp by (intro map_idI) auto
    finally show ?thesis .
  qed
  have 4: "replace_str ''neighbourhood'' ''neighborhood'' ?r = ?r" by (rule fold_spelling_idem)
  show ?thesis unfolding normalize_name_def [of s]
    by (subst normalize_name_def) (simp only: 1 2 3 4)
qed

text \<open>
  Claim C8. Header normalization (lowercase, trim, spaces to underscores, the spelling
  neighbourhood folded onto neighborhood) is idempotent: for every frame, and so for
  every list of column names, cleaning the column names twice gives the same names as
  cleaning them once.
\<close>

theorem header_normalization_idempotent:
  "columns (clean_column_names (clean_column_names df)) = columns (clean_column_names df)"
  by (simp add: clean_column_names_def normalize_name_idem)

subsection \<open>Sequencing and series\<close>

lemma then_do_Inr [simp]: "then_do (Inr x) f = f x"
  by (simp add: then_do_def)

lemma then_do_Inl [simp]: "then_do (Inl e) f = Inl e"
  by (simp add: then_do_def)

lemma then_do_eq_Inr: "then_do m f = Inr y \<longleftrightarrow> (\<exists>x. m = Inr x \<and> f x = Inr y)"
  by (cases m) simp_all

lemma traverse_Inr: "traverse f xs = Inr ys \<longleftrightarrow> list_all2 (\<lambda>x y. f x = Inr y) xs ys"
proof (induction xs arbitrary: ys)
  case Nil
  show ?case by auto
next
  case (Cons x xs)
  show ?case
  proof (cases "f x")
    case (Inl e)
    then show ?thesis by (auto simp: list_all2_Cons1)
  next
    case (Inr y)
    show ?thesis
    proof (cases "traverse f xs")
      case (Inl e)
      then have "\<not> list_all2 (\<lambda>x y. f x = Inr y) xs zs" for zs
        using Cons.IH [of zs] by simp
      then show ?thesis using Inl Inr by (auto simp: list_all2_Cons1)
    next
      case r: (Inr zs)
      then have "list_all2 (\<lambda>x y. f x = Inr y) xs ws \<longleftrightarrow> ws = zs" for ws
        using Cons.IH [of ws] by auto
      then show ?thesis using r Inr by (auto simp: list_all2_Cons1)
    qed
  qed
qed

lemma traverse_fails:
  "x \<in> set xs \<Longrightarrow> f x = Inl e \<Longrightarrow> \<exists>e'. traverse f xs = Inl e'"
proof (induction xs)
  case Nil
  then show ?case by simp
next
  case (Cons a xs)
  then show ?case by (cases "f a"; cases "traverse f xs") auto
qed

subsection \<open>Reading and writing columns\<close>

lemma col_values_length [simp]: "length (col_values df c) = length (rows df)"
  by (simp add: col_values_def)

lemma set_col_map:
  "set_col c (map h (rows df)) df =
     \<lparr>columns = (if c \<in> set (columns df) then columns df else columns df @ [c]),
      rows = map (\<lambda>r. r(c := h r)) (rows df)\<rparr>"
  by (simp add: set_col_def zip_map2 zip_same_conv_map)

lemma set_col_col_values:
  "set_col c (map g (col_values df c0)) df =
     \<lparr>columns = (if c \<in> set (columns df) then columns df else columns df @ [c]),
      rows = map (\<lambda>r. r(c := g (r c0))) (rows df)\<rparr>"
  by (simp add: set_col_def col_values_def zip_map2 zip_same_conv_map)

lemma columns_set_col:
  "set (columns (set_col c vs df)) = insert c (set (columns df))"
  by (auto simp: set_col_def)

lemma rows_set_col_traverse:
  assumes "traverse f (map k (rows df)) = Inr ser"
  shows "list_all2 (\<lambda>r r'. \<exists>v. f (k r) = Inr v \<and> r' = r(c := v)) (rows df) (rows (set_col c ser df))"
proof -
  have a: "list_all2 (\<lambda>r y. f (k r) = Inr y) (rows df) ser"
    using assms by (simp add: traverse_Inr list_all2_map1)
  then have len: "length ser = length (rows df)" by (simp add: list_all2_lengthD)
  show ?thesis
    unfolding list_all2_conv_all_nth
  proof (intro conjI allI impI)
    show "length (rows df) = length (rows (set_col c ser df))"
      using len by (simp add: set_col_def)
  next
    fix i assume i: "i < length (rows df)"
    then have "f (k (rows df ! i)) = Inr (ser ! i)"
      using a by (simp add: list_all2_conv_all_nth)
    moreover have "rows (set_col c ser df) ! i = (rows df ! i)(c := ser ! i)"
      using i len by (simp add: set_col_def)
    ultimately show "\<exists>v. f (k (rows df ! i)) = Inr v \<and> rows (set_col c ser df) ! i = (rows df ! i)(c := v)"
      by blast
  qed
qed

subsection \<open>Duplicate removal\<close>

lemma length_keep_first: "length (keep_first key xs) \<le> length xs"
proof (induction key xs rule: keep_first.induct)
  case (1 key)
  show ?case by simp
next
  case (2 key x xs)
  have "length (filter (\<lambda>y. key y \<noteq> key x) xs) \<le> length xs" by simp
  then have "length (keep_first key (filter (\<lambda>y. key y \<noteq> key x) xs)) \<le> length xs"
    using 2 by (rule order_trans [rotated])
  then show ?case by simp
qed

lemma set_keep_first: "set (keep_first key xs) \<subseteq> set xs"
proof (induction key xs rule: keep_first.induct)
  case (1 key)
  show ?case by simp
next
  case (2 key x xs)
  then show ?case by auto
qed

lemma keep_first_idem: "keep_first key (keep_first key xs) = keep_first key xs"
proof (induction key xs rule: keep_first.induct)
  case (1 key)
  show ?case by simp
next
  case (2 key x xs)
  let ?ys = "keep_first key (filter (\<lambda>y. key y \<noteq> key x) xs)"
  have "set ?ys \<subseteq> set (filter (\<lambda>y. key y \<noteq> key x) xs)" by (rule set_keep_first)
  then have "filter (\<lambda>y. key y \<noteq> key x) ?ys = ?ys" by (auto intro!: filter_True)
  then show ?case using 2 by simp
qed

lemma keep_first_Nil_iff: "keep_first key xs = [] \<longleftrightarrow> xs = []"
  by (cases xs) simp_all

lemma drop_duplicates_idem: "drop_duplicates (drop_duplicates df) = drop_duplicates df"
  by (simp add: drop_duplicates_def keep_first_idem keep_first_Nil_iff)

lemma length_drop_duplicates: "length (rows (drop_duplicates df)) \<le> length (rows df)"
  by (simp add: drop_duplicates_def length_keep_first)

subsection \<open>The steps of sections 7 and 8\<close>

lemma agree_off_refl: "agree_off W r r"
  by (simp add: agree_off_def)

lemma agree_off_upd: "c \<in> W \<Longrightarrow> agree_off W r (r(c := v))"
  by (simp add: agree_off_def)

lemma agree_off_trans:
  assumes "agree_off W1 r r1" "agree_off W2 r1 r2" "W1 \<subseteq> W" "W2 \<subseteq> W"
  shows "agree_off W r r2"
  unfolding agree_off_def
proof (intro allI impI)
  fix c assume "c \<notin> W"
  then have "c \<notin> W1" "c \<notin> W2" using assms(3,4) by blast+
  then have "r1 c = r c" "r2 c = r1 c" using assms(1,2) by (simp_all add: agree_off_def)
  then show "r2 c = r c" by simp
qed

lemma clean_currency_column_Inr:
  assumes "clean_currency_column df c = Inr ser"
  shows "c \<in> set (columns df)"
    and "traverse to_float (map (\<lambda>r. strip_currency (r c)) (rows df)) = Inr ser"
proof -
  show c: "c \<in> set (columns df)"
    using assms by (cases "c \<in> set (columns df)") (simp_all add: clean_currency_column_def get_col_def)
  show "traverse to_float (map (\<lambda>r. strip_currency (r c)) (rows df)) = Inr ser"
    using assms c by (simp add: clean_currency_column_def get_col_def comp_def)
qed

lemma clean_one_currency:
  assumes "clean_currency_column df c = Inr ser"
  shows "columns (set_col c ser df) = columns df"
    and "list_all2 (\<lambda>r r'. to_float (strip_currency (r c)) = Inr (r' c) \<and> agree_off {c} r r')
           (rows df) (rows (set_col c ser df))"
proof -
  note a = clean_currency_column_Inr [OF assms]
  show "columns (set_col c ser df) = columns df" using a(1) by (simp add: set_col_def)
  have "list_all2 (\<lambda>r r'. \<exists>v. to_float (strip_currency (r c)) = Inr v \<and> r' = r(c := v))
          (rows df) (rows (set_col c ser df))"
    using a(2) traverse_Inr rows_set_col_traverse [of to_float "\<lambda>r. strip_currency (r c)" df ser c]
    by (simp add: list_all2_map1)
  then show "list_all2 (\<lambda>r r'. to_float (strip_currency (r c)) = Inr (r' c) \<and> agree_off {c} r r')
           (rows df) (rows (set_col c ser df))"
    by (rule list_all2_mono) (auto simp: agree_off_def)
qed

lemma clean_prices_Inr:
  assumes "clean_prices df = Inr df'"
  shows "columns df' = columns df"
    and "list_all2 (\<lambda>r r'. agree_off {''price'', ''service_fee''} r r'
            \<and> priced ''price'' (columns df) r r' \<and> priced ''service_fee'' (columns df) r r')
           (rows df) (rows df')"
proof -
  obtain d1 where d1: "(if ''price'' \<in> set (columns df)
        then then_do (clean_currency_column df ''price'') (\<lambda>ser. Inr (set_col ''price'' ser df))
        else Inr df) = Inr d1"
    and d2: "(if ''service_fee'' \<in> set (columns d1)
          then then_do (clean_currency_column d1 ''service_fee'')
                 (\<lambda>ser. Inr (set_col ''service_fee'' ser d1))
          else Inr d1) = Inr df'"
    using assms unfolding clean_prices_def then_do_eq_Inr by blast
  have s1: "columns d1 = columns df \<and>
      list_all2 (\<lambda>r r'. agree_off {''price''} r r' \<and> priced ''price'' (columns df) r r')
        (rows df) (rows d1)"
  proof (cases "''price'' \<in> set (columns df)")
    case True
    then obtain ser where ser: "clean_currency_column df ''price'' = Inr ser"
      and e: "d1 = set_col ''price'' ser df"
      using d1 by (auto simp: then_do_eq_Inr)
    show ?thesis using clean_one_currency [OF ser] True unfolding e
      by (auto simp: priced_def elim!: list_all2_mono)
  next
    case False
    then have "d1 = df" using d1 by simp
    then show ?thesis using False
      by (simp add: list_all2_same agree_off_refl priced_def)
  qed
  have s2: "columns df' = columns d1 \<and>
      list_all2 (\<lambda>r r'. agree_off {''service_fee''} r r' \<and> priced ''service_fee'' (columns df) r r')
        (rows d1) (rows df')"
  proof (cases "''service_fee'' \<in> set (columns d1)")
    case True
    then obtain ser where ser: "clean_currency_column d1 ''service_fee'' = Inr ser"
      and e: "df' = set_col ''service_fee'' ser d1"
      using d2 by (auto simp: then_do_eq_Inr)
    show ?thesis using clean_one_currency [OF ser] True s1 unfolding e
      by (auto simp: priced_def elim!: list_all2_mono)
  next
    case False
    then have "df' = d1" using d2 by simp
    then show ?thesis using False s1
      by (simp add: list_all2_same agree_off_refl priced_def)
  qed
  show "columns df' = columns df" using s1 s2 by simp
  have "list_all2 (\<lambda>r r'. \<exists>m. (agree_off {''price''} r m \<and> priced ''price'' (columns df) r m)
          \<and> (agree_off {''service_fee''} m r' \<and> priced ''service_fee'' (columns df) m r'))
         (rows df) (rows df')"
    using s1 s2 by (auto intro: list_all2_trans [where ?P1.0 = "\<lambda>r m. agree_off {''price''} r m \<and> priced ''price'' (columns df) r m"
         and ?P2.0 = "\<lambda>m r'. agree_off {''service_fee''} m r' \<and> priced ''service_fee'' (columns df) m r'"])
  then show "list_all2 (\<lambda>r r'. agree_off {''price'', ''service_fee''} r r'
            \<and> priced ''price'' (columns df) r r' \<and> priced ''service_fee'' (columns df) r r')
           (rows df) (rows df')"
    by (rule list_all2_mono) (auto simp: agree_off_def priced_def)
qed

lemma coerce_step:
  "(if col \<in> set (columns df)
    then set_col col (map (to_numeric parse) (col_values df col)) df
    else df) =
   \<lparr>columns = columns df,
    rows = map (\<lambda>r c. if c = col \<and> col \<in> set (columns df) then to_numeric parse (r c) else r c)
             (rows df)\<rparr>"
proof (cases "col \<in> set (columns df)")
  case True
  have "(\<lambda>r. r(col := to_numeric parse (r col))) =
        (\<lambda>r c. if c = col \<and> col \<in> set (columns df) then to_numeric parse (r c) else r c)"
    using True by (auto simp: fun_eq_iff)
  then show ?thesis using True by (simp add: set_col_col_values)
next
  case False
  then show ?thesis by simp
qed

lemma fold_coerce:
  "distinct cs \<Longrightarrow>
   fold (\<lambda>col df.
           \<lparr>columns = columns df,
            rows = map (\<lambda>r c. if c = col \<and> col \<in> set (columns df)
                              then to_numeric parse (r c) else r c) (rows df)\<rparr>) cs df =
   \<lparr>columns = columns df,
    rows = map (\<lambda>r c. if c \<in> set cs \<and> c \<in> set (columns df) then to_numeric parse (r c) else r c)
             (rows df)\<rparr>"
proof (induction cs arbitrary: df)
  case Nil
  show ?case by simp
next
  case (Cons a cs)
  let ?F = "\<lambda>col df. \<lparr>columns = columns df,
            rows = map (\<lambda>r c. if c = col \<and> col \<in> set (columns df)
                              then to_numeric parse (r c) else r c) (rows df)\<rparr>"
  let ?H = "\<lambda>r c. if c = a \<and> a \<in> set (columns df) then to_numeric parse (r c) else r c"
  let ?G = "\<lambda>r c. if c \<in> set cs \<and> c \<in> set (columns df) then to_numeric parse (r c) else r c"
  have comp: "?G (?H r) = (\<lambda>c. if c \<in> set (a # cs) \<and> c \<in> set (columns df)
                               then to_numeric parse (r c) else r c)" for r
    using Cons.prems by (auto simp: fun_eq_iff)
  have "fold ?F (a # cs) df = fold ?F cs (?F a df)" by simp
  also have "\<dots> = \<lparr>columns = columns (?F a df),
       rows = map (\<lambda>r c. if c \<in> set cs \<and> c \<in> set (columns (?F a df))
                         then to_numeric parse (r c) else r c) (rows (?F a df))\<rparr>"
    using Cons.prems by (intro Cons.IH) simp
  also have "\<dots> = \<lparr>columns = columns df, rows = map (\<lambda>r. ?G (?H r)) (rows df)\<rparr>"
    by (simp add: comp_def)
  finally show ?case unfolding comp .
qed

lemma coerce_numeric_columns_eq:
  "coerce_numeric_columns parse df =
   \<lparr>columns = columns df,
    rows = map (\<lambda>r c. if c \<in> set numeric_columns \<and> c \<in> set (columns df)
                      then to_numeric parse (r c) else r c)
             (rows df)\<rparr>"
  unfolding coerce_numeric_columns_def coerce_step
  by (rule fold_coerce) (simp add: numeric_columns_def)

lemma to_numeric_not_text: "to_numeric parse c \<noteq> Str s"
  by (simp add: to_numeric_def split: cell.splits option.splits)

lemma add_is_superhost_eq:
  "add_is_superhost df =
   (if ''host_is_superhost'' \<in> set (columns df)
    then \<lparr>columns = (if ''is_superhost'' \<in> set (columns df) then columns df
                      else columns df @ [''is_superhost'']),
          rows = map (\<lambda>r. r(''is_superhost'' := superhost_label (r ''host_is_superhost''))) (rows df)\<rparr>
    else df)"
  by (simp add: add_is_superhost_def set_col_col_values)

lemma add_days_booked_Inr:
  assumes "add_days_booked df = Inr df'"
  shows "(''availability_365'' \<notin> set (columns df) \<and> df' = df) \<or>
         (''availability_365'' \<in> set (columns df)
          \<and> set (columns df') = insert ''days_booked'' (set (columns df))
          \<and> list_all2 (\<lambda>r r'. \<exists>v. rsub 365 (r ''availability_365'') = Inr v
                                  \<and> r' = r(''days_booked'' := v))
               (rows df) (rows df'))"
proof (cases "''availability_365'' \<in> set (columns df)")
  case False
  then show ?thesis using assms by (simp add: add_days_booked_def)
next
  case True
  then obtain ser where ser: "traverse (rsub 365) (map (\<lambda>r. r ''availability_365'') (rows df)) = Inr ser"
    and e: "df' = set_col ''days_booked'' ser df"
    using assms by (auto simp: add_days_booked_def then_do_eq_Inr col_values_def)
  show ?thesis
    using True rows_set_col_traverse [OF ser, of "''days_booked''"] unfolding e
    by (simp add: columns_set_col)
qed

lemma superhost_analysis_Inr:
  assumes "superhost_analysis df = Inr out"
  shows "''host_identity_verified'' \<in> set (columns df)"
    and "''number_of_reviews'' \<in> set (columns df)"
    and "''reviews_per_month'' \<in> set (columns df)"
    and "out = set_col ''is_superhost'' (map verified_label (col_values df ''host_identity_verified'')) df"
proof -
  show h: "''host_identity_verified'' \<in> set (columns df)"
    using assms by (cases "''host_identity_verified'' \<in> set (columns df)")
      (simp_all add: superhost_analysis_def get_col_def)
  let ?d = "set_col ''is_superhost'' (map verified_label (col_values df ''host_identity_verified'')) df"
  have eq: "superhost_analysis df =
      then_do (plot_columns [''is_superhost'', ''number_of_reviews''] ?d)
        (\<lambda>_. then_do (plot_columns [''is_superhost'', ''reviews_per_month''] ?d) (\<lambda>_. Inr ?d))"
    using h by (simp add: superhost_analysis_def get_col_def col_values_def Let_def)
  then have "then_do (plot_columns [''is_superhost'', ''number_of_reviews''] ?d)
        (\<lambda>_. then_do (plot_columns [''is_superhost'', ''reviews_per_month''] ?d) (\<lambda>_. Inr ?d))
      = Inr out"
    using assms by simp
  then obtain u v where u: "plot_columns [''is_superhost'', ''number_of_reviews''] ?d = Inr u"
    and v: "plot_columns [''is_superhost'', ''reviews_per_month''] ?d = Inr v"
    and o: "Inr ?d = (Inr out :: error + table)"
    unfolding then_do_eq_Inr by blast
  show "out = ?d" using o by simp
  show "''number_of_reviews'' \<in> set (columns df)"
    using u by (auto simp: plot_columns_def columns_set_col split: if_splits list.splits)
  show "''reviews_per_month'' \<in> set (columns df)"
    using v by (auto simp: plot_columns_def columns_set_col split: if_splits list.splits)
qed

lemma run_Inr:
  assumes "run parse df = Inr out"
  shows "\<exists>d. clean_and_derive parse df = Inr d \<and> superhost_analysis d = Inr out"
  using assms unfolding run_def then_do_eq_Inr by blast

lemma clean_and_derive_Inr:
  assumes "clean_and_derive parse df = Inr d"
  shows "\<exists>d1 d3. clean_prices (prepare df) = Inr d1
           \<and> add_days_booked (coerce_numeric_columns parse d1) = Inr d3
           \<and> d = add_is_superhost d3"
  using assms unfolding clean_and_derive_def then_do_eq_Inr by auto

lemma list_all2_same_col:
  "list_all2 (\<lambda>r r'. r' c = r c) xs ys \<Longrightarrow> map (\<lambda>r. r c) ys = map (\<lambda>r. r c) xs"
  by (induction xs ys rule: list_all2_induct) simp_all

lemma list_all2_forall2:
  "list_all2 P xs ys \<Longrightarrow> (\<And>x y. P x y \<Longrightarrow> Q y) \<Longrightarrow> \<forall>y\<in>set ys. Q y"
  by (induction xs ys rule: list_all2_induct) auto

lemma list_all2_agree_trans:
  assumes "list_all2 (agree_off W1) xs ys" "list_all2 (agree_off W2) ys zs"
    and "W1 \<subseteq> W" "W2 \<subseteq> W"
  shows "list_all2 (agree_off W) xs zs"
proof (rule list_all2_trans [OF _ assms(1,2)])
  fix a b c assume "agree_off W1 a b" "agree_off W2 b c"
  then show "agree_off W a c" using assms(3,4) by (rule agree_off_trans)
qed

lemma clean_and_derive_rows:
  assumes "clean_and_derive parse df = Inr d"
  shows "set (columns (prepare df)) \<subseteq> set (columns d)"
    and "set (columns d) \<subseteq> set (columns (prepare df)) \<union> {''days_booked'', ''is_superhost''}"
    and "list_all2 (agree_off written) (rows (prepare df)) (rows d)"
    and "''availability_365'' \<in> set (columns d) \<Longrightarrow>
         ''days_booked'' \<in> set (columns d) \<and>
         (\<forall>r\<in>set (rows d). rsub 365 (r ''availability_365'') = Inr (r ''days_booked''))"
    and "''host_is_superhost'' \<in> set (columns d) \<Longrightarrow>
         ''is_superhost'' \<in> set (columns d) \<and>
         (\<forall>r\<in>set (rows d). r ''is_superhost'' = superhost_label (r ''host_is_superhost''))"
proof -
  obtain d1 d3 where d1: "clean_prices (prepare df) = Inr d1"
    and d3: "add_days_booked (coerce_numeric_columns parse d1) = Inr d3"
    and d: "d = add_is_superhost d3"
    using clean_and_derive_Inr [OF assms] by blast
  let ?d2 = "coerce_numeric_columns parse d1"
  note p1 = clean_prices_Inr [OF d1]
  have c2: "columns ?d2 = columns d1" by (simp add: coerce_numeric_columns_eq)
  have r2: "list_all2 (agree_off (set numeric_columns)) (rows d1) (rows ?d2)"
    by (simp add: coerce_numeric_columns_eq list_all2_map2 list_all2_same agree_off_def)
  have c3: "set (columns d1) \<subseteq> set (columns d3)"
    "set (columns d3) \<subseteq> set (columns d1) \<union> {''days_booked''}"
    using add_days_booked_Inr [OF d3] c2 by auto
  have r3: "list_all2 (agree_off {''days_booked''}) (rows ?d2) (rows d3)"
    using add_days_booked_Inr [OF d3]
  proof
    assume "''availability_365'' \<notin> set (columns ?d2) \<and> d3 = ?d2"
    then show ?thesis by (simp add: list_all2_same agree_off_refl)
  next
    assume "''availability_365'' \<in> set (columns ?d2)
          \<and> set (columns d3) = insert ''days_booked'' (set (columns ?d2))
          \<and> list_all2 (\<lambda>r r'. \<exists>v. rsub 365 (r ''availability_365'') = Inr v
                                  \<and> r' = r(''days_booked'' := v))
               (rows ?d2) (rows d3)"
    then have "list_all2 (\<lambda>r r'. \<exists>v. rsub 365 (r ''availability_365'') = Inr v
                                  \<and> r' = r(''days_booked'' := v)) (rows ?d2) (rows d3)"
      by blast
    then show ?thesis by (rule list_all2_mono) (auto simp: agree_off_def)
  qed
  have c4: "set (columns d3) \<subseteq> set (columns d)"
    "set (columns d) \<subseteq> set (columns d3) \<union> {''is_superhost''}"
    unfolding d add_is_superhost_eq by auto
  have r4: "list_all2 (agree_off {''is_superhost''}) (rows d3) (rows d)"
    unfolding d add_is_superhost_eq
    by (simp add: list_all2_map2 list_all2_same agree_off_def)
  show "set (columns (prepare df)) \<subseteq> set (columns d)"
    using p1(1) c3 c4 by auto
  show "set (columns d) \<subseteq> set (columns (prepare df)) \<union> {''days_booked'', ''is_superhost''}"
    using p1(1) c3 c4 by auto
  have a1: "list_all2 (agree_off {''price'', ''service_fee''}) (rows (prepare df)) (rows d1)"
    using p1(2) by (rule list_all2_mono) simp
  have a2: "list_all2 (agree_off written) (rows (prepare df)) (rows ?d2)"
    by (rule list_all2_agree_trans [OF a1 r2]) (auto simp: written_def)
  have a3: "list_all2 (agree_off written) (rows (prepare df)) (rows d3)"
    by (rule list_all2_agree_trans [OF a2 r3]) (auto simp: written_def)
  show "list_all2 (agree_off written) (rows (prepare df)) (rows d)"
    by (rule list_all2_agree_trans [OF a3 r4]) (auto simp: written_def)
  show "''days_booked'' \<in> set (columns d) \<and>
         (\<forall>r\<in>set (rows d). rsub 365 (r ''availability_365'') = Inr (r ''days_booked''))"
    if av: "''availability_365'' \<in> set (columns d)"
  proof -
    have av3: "''availability_365'' \<in> set (columns d3)" using av c4 by auto
    then have av2: "''availability_365'' \<in> set (columns ?d2)" using c3 c2 by auto
    then have cols: "set (columns d3) = insert ''days_booked'' (set (columns ?d2))"
      and rel: "list_all2 (\<lambda>r r'. \<exists>v. rsub 365 (r ''availability_365'') = Inr v
                                  \<and> r' = r(''days_booked'' := v)) (rows ?d2) (rows d3)"
      using add_days_booked_Inr [OF d3] by blast+
    have "\<forall>r\<in>set (rows d3). rsub 365 (r ''availability_365'') = Inr (r ''days_booked'')"
      using rel by (rule list_all2_forall2) auto
    then have "\<forall>r\<in>set (rows d). rsub 365 (r ''availability_365'') = Inr (r ''days_booked'')"
      unfolding d add_is_superhost_eq by auto
    moreover have "''days_booked'' \<in> set (columns d)" using cols c4 by auto
    ultimately show ?thesis by blast
  qed
  show "''is_superhost'' \<in> set (columns d) \<and>
         (\<forall>r\<in>set (rows d). r ''is_superhost'' = superhost_label (r ''host_is_superhost''))"
    if hs: "''host_is_superhost'' \<in> set (columns d)"
  proof -
    have "''host_is_superhost'' \<in> set (columns d3)" using hs c4 by auto
    then show ?thesis unfolding d add_is_superhost_eq by auto
  qed
qed

lemma lower_char_eq_t: "lower_char c = CHR ''t'' \<longleftrightarrow> c = CHR ''t'' \<or> c = CHR ''T''"
  by (simp add: lower_char_def)

lemma flag_is_t_iff: "flag_is_t x \<longleftrightarrow> x = Str ''t'' \<or> x = Str ''T''"
proof (cases x)
  case (Str s)
  have "lower s = ''t'' \<longleftrightarrow> s = ''t'' \<or> s = ''T''"
  proof (cases s)
    case Nil
    then show ?thesis by (simp add: lower_def)
  next
    case (Cons c cs)
    then show ?thesis by (cases cs) (auto simp: lower_def lower_char_eq_t)
  qed
  then show ?thesis using Str by (simp add: flag_is_t_def)
qed (simp_all add: flag_is_t_def)

text \<open>
  Claim C2. The label column \<^verbatim>\<open>is_superhost\<close> is written twice: section 8 derives it from
  \<^verbatim>\<open>host_is_superhost\<close> (see \<open>clean_and_derive_rows\<close>), and section 13 overwrites it from
  \<^verbatim>\<open>host_identity_verified\<close>. Whenever the script reaches the export, the frame it read
  had the column \<^verbatim>\<open>host_identity_verified\<close>, and the exported \<^verbatim>\<open>is_superhost\<close> column is
  the label of that column, row by row, whatever \<^verbatim>\<open>host_is_superhost\<close> held: the text
  \<^verbatim>\<open>t\<close> in either case gives the positive label, anything else (a missing cell
  included) the negative one.
\<close>

theorem second_label_overwrites_first:
  assumes "run parse df = Inr out"
  shows "''host_identity_verified'' \<in> set (columns (prepare df))
       \<and> ''is_superhost'' \<in> set (columns out)
       \<and> col_values out ''is_superhost'' =
           map verified_label (col_values (prepare df) ''host_identity_verified'')
       \<and> verified_label x =
           (if x = Str ''t'' \<or> x = Str ''T'' then Str ''Verified Host'' else Str ''Non-Verified Host'')"
proof -
  obtain d where d: "clean_and_derive parse df = Inr d" and s: "superhost_analysis d = Inr out"
    using run_Inr [OF assms] by blast
  note sa = superhost_analysis_Inr [OF s]
  note cd = clean_and_derive_rows [OF d]
  have h: "''host_identity_verified'' \<in> set (columns (prepare df))"
    using sa(1) cd(2) by auto
  have "list_all2 (\<lambda>r r'. r' ''host_identity_verified'' = r ''host_identity_verified'')
          (rows (prepare df)) (rows d)"
    using cd(3) by (rule list_all2_mono) (simp add: agree_off_def written_def numeric_columns_def)
  then have same: "col_values d ''host_identity_verified'' = col_values (prepare df) ''host_identity_verified''"
    unfolding col_values_def by (rule list_all2_same_col)
  have "col_values out ''is_superhost'' = map verified_label (col_values d ''host_identity_verified'')"
    unfolding sa(4) set_col_col_values by (simp add: col_values_def)
  moreover have "''is_superhost'' \<in> set (columns out)"
    unfolding sa(4) by (simp add: columns_set_col)
  ultimately show ?thesis using h same by (simp add: verified_label_def flag_is_t_iff)
qed

lemma clean_and_derive_derived:
  assumes "clean_and_derive parse df = Inr d"
  shows "list_all2 (derived (columns (prepare df)) parse) (rows (prepare df)) (rows d)"
proof -
  let ?cols = "columns (prepare df)"
  obtain d1 d3 where d1: "clean_prices (prepare df) = Inr d1"
    and d3: "add_days_booked (coerce_numeric_columns parse d1) = Inr d3"
    and d: "d = add_is_superhost d3"
    using clean_and_derive_Inr [OF assms] by blast
  let ?d2 = "coerce_numeric_columns parse d1"
  let ?G = "\<lambda>r c. if c \<in> set numeric_columns \<and> c \<in> set ?cols then to_numeric parse (r c) else r c"
  note p1 = clean_prices_Inr [OF d1]
  have c2: "columns ?d2 = ?cols" using p1(1) by (simp add: coerce_numeric_columns_eq)
  have rows2: "rows ?d2 = map ?G (rows d1)"
    using p1(1) by (simp add: coerce_numeric_columns_eq)
  have av: "''availability_365'' \<in> set numeric_columns" by (simp add: numeric_columns_def)
  have r3: "list_all2 (\<lambda>r2 r3. if ''availability_365'' \<in> set ?cols
            then \<exists>v. rsub 365 (r2 ''availability_365'') = Inr v \<and> r3 = r2(''days_booked'' := v)
            else r3 = r2) (rows ?d2) (rows d3)"
    using add_days_booked_Inr [OF d3] c2
    by (auto simp: list_all2_same)
  have c3: "''host_is_superhost'' \<in> set (columns d3) \<longleftrightarrow> ''host_is_superhost'' \<in> set ?cols"
    using add_days_booked_Inr [OF d3] c2 by auto
  have r4: "list_all2 (\<lambda>r3 r. if ''host_is_superhost'' \<in> set ?cols
            then r = r3(''is_superhost'' := superhost_label (r3 ''host_is_superhost''))
            else r = r3) (rows d3) (rows d)"
    unfolding d add_is_superhost_eq c3
    by (simp add: list_all2_map2 list_all2_same)
  have r13: "list_all2 (\<lambda>r1 r3. if ''availability_365'' \<in> set ?cols
            then \<exists>v. rsub 365 (?G r1 ''availability_365'') = Inr v \<and> r3 = (?G r1)(''days_booked'' := v)
            else r3 = ?G r1) (rows d1) (rows d3)"
    using r3 unfolding rows2 by (simp add: list_all2_map1)
  let ?P1 = "\<lambda>r r'. agree_off {''price'', ''service_fee''} r r'
            \<and> priced ''price'' ?cols r r' \<and> priced ''service_fee'' ?cols r r'"
  let ?P3 = "\<lambda>r1 r3. if ''availability_365'' \<in> set ?cols
            then \<exists>v. rsub 365 (?G r1 ''availability_365'') = Inr v \<and> r3 = (?G r1)(''days_booked'' := v)
            else r3 = ?G r1"
  let ?P4 = "\<lambda>r3 r. if ''host_is_superhost'' \<in> set ?cols
            then r = r3(''is_superhost'' := superhost_label (r3 ''host_is_superhost''))
            else r = r3"
  have "list_all2 (?P1 OO ?P3 OO ?P4) (rows (prepare df)) (rows d)"
    unfolding list.rel_compp using p1(2) r13 r4 by blast
  then show ?thesis
  proof (rule list_all2_mono)
    fix r0 r assume "(?P1 OO ?P3 OO ?P4) r0 r"
    then obtain r1 r3 where q1: "?P1 r0 r1" and q3: "?P3 r1 r3" and q4: "?P4 r3 r" by blast
    have g: "''availability_365'' \<in> set ?cols \<Longrightarrow>
        ?G r1 ''availability_365'' = to_numeric parse (r1 ''availability_365'')"
      using av by simp
    have q3': "if ''availability_365'' \<in> set ?cols
            then \<exists>v. rsub 365 (to_numeric parse (r1 ''availability_365'')) = Inr v
                     \<and> r3 = (?G r1)(''days_booked'' := v)
            else r3 = ?G r1"
    proof (cases "''availability_365'' \<in> set ?cols")
      case True
      then show ?thesis using q3 g [OF True] by (simp only: if_True)
    next
      case False
      then show ?thesis using q3 by (simp only: if_False)
    qed
    show "derived ?cols parse r0 r"
      unfolding derived_def
      apply (rule exI [of _ r1])
      apply (rule exI [of _ r3])
      using q1 q3' q4 apply blast
      done
  qed
qed

lemma derived_cells:
  assumes "derived cols parse r0 r"
  shows "\<exists>r1. agree_off {''price'', ''service_fee''} r0 r1
    \<and> priced ''price'' cols r0 r1 \<and> priced ''service_fee'' cols r0 r1
    \<and> (\<forall>c. c \<noteq> ''days_booked'' \<longrightarrow> c \<noteq> ''is_superhost'' \<longrightarrow>
           r c = (if c \<in> set numeric_columns \<and> c \<in> set cols then to_numeric parse (r1 c) else r1 c))
    \<and> (''availability_365'' \<in> set cols \<longrightarrow>
           rsub 365 (to_numeric parse (r1 ''availability_365'')) = Inr (r ''days_booked''))
    \<and> (''host_is_superhost'' \<in> set cols \<longrightarrow>
           r ''is_superhost'' = superhost_label (r ''host_is_superhost''))"
proof -
  let ?G = "\<lambda>r1 c. if c \<in> set numeric_columns \<and> c \<in> set cols then to_numeric parse (r1 c) else r1 c"
  from assms obtain r1 r3 where a: "agree_off {''price'', ''service_fee''} r0 r1"
    and p: "priced ''price'' cols r0 r1" "priced ''service_fee'' cols r0 r1"
    and av: "if ''availability_365'' \<in> set cols
            then \<exists>v. rsub 365 (to_numeric parse (r1 ''availability_365'')) = Inr v
                     \<and> r3 = (?G r1)(''days_booked'' := v)
            else r3 = ?G r1"
    and hs: "if ''host_is_superhost'' \<in> set cols
            then r = r3(''is_superhost'' := superhost_label (r3 ''host_is_superhost''))
            else r = r3"
    unfolding derived_def by blast
  have r_r3: "r c = r3 c" if "c \<noteq> ''is_superhost''" for c
    using hs that by (cases "''host_is_superhost'' \<in> set cols") simp_all
  have r3_r1: "r3 c = ?G r1 c" if "c \<noteq> ''days_booked''" for c
  proof (cases "''availability_365'' \<in> set cols")
    case True
    then obtain v where "r3 = (?G r1)(''days_booked'' := v)" using av by auto
    then show ?thesis using that by simp
  next
    case False
    then show ?thesis using av by simp
  qed
  have cell: "r c = ?G r1 c" if "c \<noteq> ''days_booked''" "c \<noteq> ''is_superhost''" for c
    using r_r3 [OF that(2)] r3_r1 [OF that(1)] by simp
  have days: "rsub 365 (to_numeric parse (r1 ''availability_365'')) = Inr (r ''days_booked'')"
    if t: "''availability_365'' \<in> set cols"
  proof -
    obtain v where v: "rsub 365 (to_numeric parse (r1 ''availability_365'')) = Inr v"
      and e: "r3 = (?G r1)(''days_booked'' := v)" using av t by auto
    have "r3 ''days_booked'' = v" using e by simp
    moreover have "r ''days_booked'' = r3 ''days_booked''" by (rule r_r3) simp
    ultimately show ?thesis using v by simp
  qed
  have label: "r ''is_superhost'' = superhost_label (r ''host_is_superhost'')"
    if t: "''host_is_superhost'' \<in> set cols"
  proof -
    have e: "r = r3(''is_superhost'' := superhost_label (r3 ''host_is_superhost''))"
      using hs t by simp
    have "r ''is_superhost'' = superhost_label (r3 ''host_is_superhost'')"
      by (subst e) simp
    moreover have "r ''host_is_superhost'' = r3 ''host_is_superhost''" by (rule r_r3) simp
    ultimately show ?thesis by simp
  qed
  show ?thesis using a p cell days label by blast
qed

lemma derived_other:
  assumes "derived cols parse r0 r" "c \<notin> written"
  shows "r c = r0 c"
proof -
  have ne: "c \<noteq> ''days_booked''" "c \<noteq> ''is_superhost''" "c \<notin> set numeric_columns"
    "c \<notin> {''price'', ''service_fee''}"
    using assms(2) by (simp_all add: written_def)
  obtain r1 where a: "agree_off {''price'', ''service_fee''} r0 r1"
    and p: "priced ''price'' cols r0 r1" "priced ''service_fee'' cols r0 r1"
    and cell: "\<And>c. c \<noteq> ''days_booked'' \<Longrightarrow> c \<noteq> ''is_superhost'' \<Longrightarrow>
           r c = (if c \<in> set numeric_columns \<and> c \<in> set cols then to_numeric parse (r1 c) else r1 c)"
    and days: "''availability_365'' \<in> set cols \<Longrightarrow>
           rsub 365 (to_numeric parse (r1 ''availability_365'')) = Inr (r ''days_booked'')"
    using derived_cells [OF assms(1)] by blast
  have "r c = r1 c" using cell [OF ne(1,2)] ne(3) by simp
  moreover have "r1 c = r0 c" using a ne(4) unfolding agree_off_def by blast
  ultimately show ?thesis by simp
qed

lemma numeric_column_names:
  assumes "c \<in> set numeric_columns"
  shows "c \<noteq> ''days_booked''" "c \<noteq> ''is_superhost''" "c \<notin> {''price'', ''service_fee''}"
  using assms by (auto simp: numeric_columns_def)

lemma derived_numeric:
  assumes "derived cols parse r0 r" "c \<in> set numeric_columns" "c \<in> set cols"
  shows "r c = to_numeric parse (r0 c)"
proof -
  note ne = numeric_column_names [OF assms(2)]
  obtain r1 where a: "agree_off {''price'', ''service_fee''} r0 r1"
    and p: "priced ''price'' cols r0 r1" "priced ''service_fee'' cols r0 r1"
    and cell: "\<And>c. c \<noteq> ''days_booked'' \<Longrightarrow> c \<noteq> ''is_superhost'' \<Longrightarrow>
           r c = (if c \<in> set numeric_columns \<and> c \<in> set cols then to_numeric parse (r1 c) else r1 c)"
    and days: "''availability_365'' \<in> set cols \<Longrightarrow>
           rsub 365 (to_numeric parse (r1 ''availability_365'')) = Inr (r ''days_booked'')"
    using derived_cells [OF assms(1)] by blast
  have "r c = to_numeric parse (r1 c)" using cell [OF ne(1,2)] assms(2,3) by simp
  moreover have "r1 c = r0 c" using a ne(3) unfolding agree_off_def by blast
  ultimately show ?thesis by simp
qed


lemma derived_days:
  assumes "derived cols parse r0 r" "''availability_365'' \<in> set cols"
  shows "rsub 365 (r ''availability_365'') = Inr (r ''days_booked'')"
    and "r ''availability_365'' = to_numeric parse (r0 ''availability_365'')"
proof -
  have av: "''availability_365'' \<in> set numeric_columns" by (simp add: numeric_columns_def)
  show n: "r ''availability_365'' = to_numeric parse (r0 ''availability_365'')"
    using assms(1) av assms(2) by (rule derived_numeric)
  obtain r1 where a: "agree_off {''price'', ''service_fee''} r0 r1"
    and p: "priced ''price'' cols r0 r1" "priced ''service_fee'' cols r0 r1"
    and cell: "\<And>c. c \<noteq> ''days_booked'' \<Longrightarrow> c \<noteq> ''is_superhost'' \<Longrightarrow>
           r c = (if c \<in> set numeric_columns \<and> c \<in> set cols then to_numeric parse (r1 c) else r1 c)"
    and days: "''availability_365'' \<in> set cols \<Longrightarrow>
           rsub 365 (to_numeric parse (r1 ''availability_365'')) = Inr (r ''days_booked'')"
    using derived_cells [OF assms(1)] by blast
  have "r1 ''availability_365'' = r0 ''availability_365''"
    using a unfolding agree_off_def by simp
  then show "rsub 365 (r ''availability_365'') = Inr (r ''days_booked'')"
    using days [OF assms(2)] n by simp
qed

lemma derived_label:
  assumes "derived cols parse r0 r" "''host_is_superhost'' \<in> set cols"
  shows "r ''is_superhost'' = superhost_label (r ''host_is_superhost'')"
  using derived_cells [OF assms(1)] assms(2) by blast

lemma list_all2_col:
  "list_all2 (\<lambda>x y. g y = f x) xs ys \<Longrightarrow> map g ys = map f xs"
  by (induction xs ys rule: list_all2_induct) simp_all


lemma clean_and_derive_other:
  assumes "clean_and_derive parse df = Inr d" and "c \<notin> written"
  shows "col_values d c = col_values (prepare df) c"
proof -
  have "list_all2 (\<lambda>r0 r. r c = r0 c) (rows (prepare df)) (rows d)"
    using clean_and_derive_derived [OF assms(1)]
    by (rule list_all2_mono) (rule derived_other [OF _ assms(2)])
  then show ?thesis unfolding col_values_def by (rule list_all2_col)
qed


lemma clean_and_derive_days:
  assumes "clean_and_derive parse df = Inr d" and "''availability_365'' \<in> set (columns (prepare df))"
  shows "traverse (rsub 365) (col_values d ''availability_365'') = Inr (col_values d ''days_booked'')"
proof -
  have "list_all2 (\<lambda>r0 r. rsub 365 (r ''availability_365'') = Inr (r ''days_booked''))
          (rows (prepare df)) (rows d)"
    using clean_and_derive_derived [OF assms(1)]
    by (rule list_all2_mono) (rule derived_days(1) [OF _ assms(2)])
  then have "list_all2 (\<lambda>r r'. rsub 365 (r ''availability_365'') = Inr (r' ''days_booked''))
          (rows d) (rows d)"
    by (induction rule: list_all2_induct) simp_all
  then show ?thesis
    unfolding traverse_Inr col_values_def by (simp add: list_all2_map1 list_all2_map2)
qed

subsection \<open>When the script runs to its end\<close>

lemma traverse_total:
  "list_all (\<lambda>x. \<not> isl (f x)) xs \<Longrightarrow> \<exists>ys. traverse f xs = Inr ys"
proof (induction xs)
  case Nil
  show ?case by simp
next
  case (Cons x xs)
  then obtain y ys where "f x = Inr y" "traverse f xs = Inr ys"
    by (cases "f x") auto
  then show ?case by simp
qed

lemma rows_set_col_length:
  "length vs = length (rows df) \<Longrightarrow> length (rows (set_col c vs df)) = length (rows df)"
  by (simp add: set_col_def)

lemma col_values_set_col_other:
  assumes "length vs = length (rows df)" "c' \<noteq> c"
  shows "col_values (set_col c vs df) c' = col_values df c'"
proof -
  have "map ((\<lambda>r. r c') \<circ> (\<lambda>(r, v). r(c := v))) (zip (rows df) vs) = map (\<lambda>r. r c') (map fst (zip (rows df) vs))"
    using assms(2) by (auto simp: comp_def)
  then show ?thesis using assms(1) by (simp add: set_col_def col_values_def)
qed

lemma clean_currency_column_ok:
  assumes "c \<in> set (columns df)" "list_all currency_ok (col_values df c)"
  shows "\<exists>ser. clean_currency_column df c = Inr ser \<and> length ser = length (rows df)"
proof -
  have "list_all (\<lambda>x. \<not> isl (to_float x)) (map strip_currency (col_values df c))"
    using assms(2) by (simp add: list_all_iff currency_ok_def)
  then obtain ser where ser: "traverse to_float (map strip_currency (col_values df c)) = Inr ser"
    using traverse_total by blast
  then have "length ser = length (rows df)"
    unfolding traverse_Inr by (auto dest: list_all2_lengthD)
  moreover have "clean_currency_column df c = Inr ser"
    using ser assms(1) by (simp add: clean_currency_column_def get_col_def col_values_def)
  ultimately show ?thesis by blast
qed

lemma clean_prices_ok:
  assumes "''price'' \<in> set (columns df) \<Longrightarrow> list_all currency_ok (col_values df ''price'')"
    and "''service_fee'' \<in> set (columns df) \<Longrightarrow> list_all currency_ok (col_values df ''service_fee'')"
  shows "\<exists>d1. clean_prices df = Inr d1"
proof -
  obtain d0 where d0: "(if ''price'' \<in> set (columns df)
        then then_do (clean_currency_column df ''price'') (\<lambda>ser. Inr (set_col ''price'' ser df))
        else Inr df) = Inr d0"
    and cols: "set (columns d0) = set (columns df)"
    and fee: "col_values d0 ''service_fee'' = col_values df ''service_fee''"
  proof (cases "''price'' \<in> set (columns df)")
    case True
    then obtain ser where ser: "clean_currency_column df ''price'' = Inr ser"
      and len: "length ser = length (rows df)"
      using clean_currency_column_ok assms(1) by blast
    show ?thesis
    proof (rule that [of "set_col ''price'' ser df"])
      show "(if ''price'' \<in> set (columns df)
        then then_do (clean_currency_column df ''price'') (\<lambda>ser. Inr (set_col ''price'' ser df))
        else Inr df) = Inr (set_col ''price'' ser df)"
        using True ser by simp
      show "set (columns (set_col ''price'' ser df)) = set (columns df)"
        using True by (auto simp: columns_set_col)
      show "col_values (set_col ''price'' ser df) ''service_fee'' = col_values df ''service_fee''"
        using len by (rule col_values_set_col_other) simp
    qed
  next
    case False
    then show ?thesis by (intro that [of df]) simp_all
  qed
  have "\<exists>d1. (if ''service_fee'' \<in> set (columns d0)
          then then_do (clean_currency_column d0 ''service_fee'')
                 (\<lambda>ser. Inr (set_col ''service_fee'' ser d0))
          else Inr d0) = Inr d1"
  proof (cases "''service_fee'' \<in> set (columns d0)")
    case True
    then have "list_all currency_ok (col_values d0 ''service_fee'')"
      using assms(2) cols fee by simp
    then obtain ser where "clean_currency_column d0 ''service_fee'' = Inr ser"
      using clean_currency_column_ok [OF True] by blast
    then show ?thesis using True by simp
  next
    case False
    then show ?thesis by simp
  qed
  then show ?thesis unfolding clean_prices_def using d0 by simp
qed

lemma rsub_numeric: "\<not> isl (rsub k (to_numeric parse c))"
  by (cases c) (auto simp: rsub_def to_numeric_def split: option.splits)

lemma add_days_booked_ok: "\<exists>d3. add_days_booked (coerce_numeric_columns parse d1) = Inr d3"
proof (cases "''availability_365'' \<in> set (columns d1)")
  case False
  then show ?thesis by (simp add: add_days_booked_def coerce_numeric_columns_eq)
next
  case True
  let ?d2 = "coerce_numeric_columns parse d1"
  have "col_values ?d2 ''availability_365'' = map (\<lambda>r. to_numeric parse (r ''availability_365'')) (rows d1)"
    using True by (simp add: coerce_numeric_columns_eq col_values_def numeric_columns_def)
  then have "list_all (\<lambda>x. \<not> isl (rsub 365 x)) (col_values ?d2 ''availability_365'')"
    by (simp add: list_all_iff rsub_numeric)
  then obtain ser where "traverse (rsub 365) (col_values ?d2 ''availability_365'') = Inr ser"
    using traverse_total by blast
  then show ?thesis using True by (simp add: add_days_booked_def coerce_numeric_columns_eq)
qed

lemma clean_and_derive_ok:
  assumes "''price'' \<in> set (columns (prepare df)) \<Longrightarrow>
             list_all currency_ok (col_values (prepare df) ''price'')"
    and "''service_fee'' \<in> set (columns (prepare df)) \<Longrightarrow>
             list_all currency_ok (col_values (prepare df) ''service_fee'')"
  shows "\<exists>d. clean_and_derive parse df = Inr d"
proof -
  obtain d1 where d1: "clean_prices (prepare df) = Inr d1"
    using clean_prices_ok [OF assms] by blast
  obtain d3 where "add_days_booked (coerce_numeric_columns parse d1) = Inr d3"
    using add_days_booked_ok by blast
  then show ?thesis using d1 by (simp add: clean_and_derive_def)
qed

lemma plot_columns_Inr: "plot_columns cs df = Inr u \<longleftrightarrow> set cs \<subseteq> set (columns df)"
proof -
  have "filter (\<lambda>c. c \<notin> set (columns df)) cs = [] \<longleftrightarrow> set cs \<subseteq> set (columns df)"
    by (auto simp: filter_empty_conv)
  then show ?thesis by (cases "filter (\<lambda>c. c \<notin> set (columns df)) cs") (auto simp: plot_columns_def)
qed

lemma run_ok:
  assumes "runnable (prepare df)"
  shows "\<exists>out. run parse df = Inr out"
proof -
  let ?p = "prepare df"
  have req: "''price'' \<in> set (columns ?p)" "''review_rate_number'' \<in> set (columns ?p)"
    "''host_identity_verified'' \<in> set (columns ?p)" "''number_of_reviews'' \<in> set (columns ?p)"
    "''reviews_per_month'' \<in> set (columns ?p)"
    and price: "list_all currency_ok (col_values ?p ''price'')"
    and fee: "''service_fee'' \<in> set (columns ?p) \<Longrightarrow> list_all currency_ok (col_values ?p ''service_fee'')"
    and pol: "''cancellation_policy'' \<in> set (columns ?p) \<Longrightarrow> ''room_type'' \<notin> set (columns ?p)"
    and nb: "''neighborhood'' \<in> set (columns ?p) \<Longrightarrow>
        ''room_type'' \<in> set (columns ?p) \<and> ''service_fee'' \<in> set (columns ?p)"
    using assms unfolding runnable_def by (simp_all split: if_splits)
  obtain d where d: "clean_and_derive parse df = Inr d"
    using clean_and_derive_ok [of df parse] price fee by blast
  note cd = clean_and_derive_rows(1,2) [OF d]
  have in_d: "c \<in> set (columns ?p) \<Longrightarrow> c \<in> set (columns d)" for c using cd(1) by blast
  have from_d: "c \<in> set (columns d) \<Longrightarrow> c \<noteq> ''days_booked'' \<Longrightarrow> c \<noteq> ''is_superhost'' \<Longrightarrow>
      c \<in> set (columns ?p)" for c
    using cd(2) by blast
  have e: "exploratory_analysis d = Inr ()"
  proof -
    have "\<not> (''cancellation_policy'' \<in> set (columns d) \<and> ''room_type'' \<in> set (columns d))"
      using pol from_d [of "''cancellation_policy''"] from_d [of "''room_type''"] by auto
    then show ?thesis
      using in_d [OF req(1)] by (auto simp: exploratory_analysis_def groupby_mean_def)
  qed
  have n: "neighborhood_prices d = Inr ()"
  proof (cases "''neighborhood'' \<in> set (columns d)")
    case False
    then show ?thesis by (simp add: neighborhood_prices_def)
  next
    case True
    then have "''neighborhood'' \<in> set (columns ?p)" using from_d by simp
    then have "''room_type'' \<in> set (columns d)" "''service_fee'' \<in> set (columns d)"
      using nb in_d by blast+
    then show ?thesis
      using True in_d [OF req(1)]
      by (simp add: neighborhood_prices_def avg_price_neighborhood_def groupby_mean_def plot_columns_def)
  qed
  have r: "review_rate_vs_price d = Inr ()"
    using in_d [OF req(1)] in_d [OF req(2)] by (simp add: review_rate_vs_price_def plot_columns_def)
  have "\<exists>out. superhost_analysis d = Inr out"
    using in_d [OF req(3)] in_d [OF req(4)] in_d [OF req(5)]
    by (simp add: superhost_analysis_def get_col_def plot_columns_def columns_set_col Let_def)
  then show ?thesis using d e n r by (simp add: run_def)
qed

subsection \<open>The example frame\<close>

lemma example_names:
  "normalize_name ''price'' = ''price''"
  "normalize_name ''service fee'' = ''service_fee''"
  "normalize_name ''availability 365'' = ''availability_365''"
  "normalize_name ''host_is_superhost'' = ''host_is_superhost''"
  "normalize_name ''host_identity_verified'' = ''host_identity_verified''"
  "normalize_name ''review rate number'' = ''review_rate_number''"
  "normalize_name ''number of reviews'' = ''number_of_reviews''"
  "normalize_name ''reviews per month'' = ''reviews_per_month''"
  by (simp_all add: normalize_name_def lower_def lower_char_def strip_def is_space_def
      replace_str_hit replace_str_miss)

lemma example_columns:
  "columns (prepare listing_example) =
     [''price'', ''service_fee'', ''availability_365'', ''host_is_superhost'',
      ''host_identity_verified'', ''review_rate_number'', ''number_of_reviews'',
      ''reviews_per_month'']"
  by (simp add: prepare_def drop_duplicates_def drop_columns_def clean_column_names_def
      listing_example_def example_names columns_to_drop_def)

lemma example_rows:
  "map (\<lambda>r. map r (columns (prepare listing_example))) (rows (prepare listing_example)) =
     [[Str ''$100.00'', Str ''$5'', Num (Fin 300), Str ''t'', Str ''unconfirmed'',
       Num (Fin 4), Num (Fin 9), Str ''0.21''],
      [Str ''$1,234.50'', Str ''$0'', Null, Str ''f'', Str ''T'', Num (Fin 5), Num (Fin 0), Null]]"
  unfolding example_columns
  by (simp add: prepare_def drop_duplicates_def drop_columns_def clean_column_names_def
      listing_example_def example_names columns_to_drop_def relabel_def
      first_listing_def second_listing_def)

lemma col_from_matrix:
  assumes "map (\<lambda>r. map r cols) rs = M" "i < length cols"
  shows "map (\<lambda>r. r (cols ! i)) rs = map (\<lambda>row. row ! i) M"
  using assms by (auto simp: nth_map)

lemma example_cells:
  "col_values (prepare listing_example) ''price'' = [Str ''$100.00'', Str ''$1,234.50'']"
  "col_values (prepare listing_example) ''service_fee'' = [Str ''$5'', Str ''$0'']"
  "col_values (prepare listing_example) ''availability_365'' = [Num (Fin 300), Null]"
  "col_values (prepare listing_example) ''host_is_superhost'' = [Str ''t'', Str ''f'']"
  "col_values (prepare listing_example) ''host_identity_verified'' = [Str ''unconfirmed'', Str ''T'']"
  using col_from_matrix [OF example_rows, of 0] col_from_matrix [OF example_rows, of 1]
    col_from_matrix [OF example_rows, of 2] col_from_matrix [OF example_rows, of 3]
    col_from_matrix [OF example_rows, of 4]
  unfolding example_columns col_values_def by simp_all

lemma example_prices:
  "to_float (strip_currency (Str ''$100.00'')) = Inr (Num (Fin 100))"
  "to_float (strip_currency (Str ''$1,234.50'')) = Inr (Num (Fin (2469 / 2)))"
  "to_float (strip_currency (Str ''$5'')) = Inr (Num (Fin 5))"
  "to_float (strip_currency (Str ''$0'')) = Inr (Num (Fin 0))"
  by (simp_all add: to_float_def strip_currency_def py_float_def parse_decimal_def
      parse_exponent_def pow10_def nat_of_digits_def digit_val_def is_digit_def
      strip_def is_space_def lower_def lower_char_def)

lemma example_runnable: "runnable (prepare listing_example)"
  unfolding runnable_def example_columns example_cells
  by (simp add: currency_ok_def example_prices)

lemma Inr_projr: "\<exists>y. x = Inr y \<Longrightarrow> x = Inr (projr x)"
  by auto

text \<open>
  The example frame runs to the export; its second listing has the flag \<^verbatim>\<open>T\<close> and is
  labelled positive although its \<^verbatim>\<open>host_is_superhost\<close> is \<^verbatim>\<open>f\<close>, and the first is
  labelled negative although its \<^verbatim>\<open>host_is_superhost\<close> is \<^verbatim>\<open>t\<close>.
\<close>

theorem second_label_overwrites_first_witness:
  "run (\<lambda>s. None) listing_example = Inr (projr (run (\<lambda>s. None) listing_example))
   \<and> col_values (prepare listing_example) ''host_is_superhost'' = [Str ''t'', Str ''f'']
   \<and> col_values (prepare listing_example) ''host_identity_verified'' = [Str ''unconfirmed'', Str ''T'']
   \<and> col_values (projr (run (\<lambda>s. None) listing_example)) ''is_superhost'' =
       [Str ''Non-Verified Host'', Str ''Verified Host'']"
proof -
  have ok: "run (\<lambda>s. None) listing_example = Inr (projr (run (\<lambda>s. None) listing_example))"
    using run_ok [OF example_runnable] by (rule Inr_projr)
  have v: "verified_label x =
      (if x = Str ''t'' \<or> x = Str ''T'' then Str ''Verified Host'' else Str ''Non-Verified Host'')" for x
    using second_label_overwrites_first [OF ok] by blast
  have "col_values (projr (run (\<lambda>s. None) listing_example)) ''is_superhost'' =
        map verified_label (col_values (prepare listing_example) ''host_identity_verified'')"
    using second_label_overwrites_first [OF ok, of Null] by blast
  then show ?thesis using ok by (simp add: example_cells v)
qed




subsection \<open>Row counts\<close>

lemma list_all2_length_rows:
  "list_all2 P (rows df) (rows df') \<Longrightarrow> length (rows df') = length (rows df)"
  by (simp add: list_all2_lengthD)

text \<open>
  Claim C9. The number of rows never grows. Cleaning the column names and dropping
  columns keep it; removing duplicates cannot raise it, and removing duplicates again
  changes nothing; each later step that changes the frame (currency cleaning, numeric
  coercion, the two derived columns, the second label) keeps it whenever it returns. So
  the exported frame has exactly the rows left after duplicate removal, which are at
  most the rows that were read.
\<close>

theorem row_count_never_grows:
  "length (rows (clean_column_names df)) = length (rows df)
   \<and> length (rows (drop_columns df)) = length (rows df)
   \<and> length (rows (drop_duplicates df)) \<le> length (rows df)
   \<and> drop_duplicates (drop_duplicates df) = drop_duplicates df
   \<and> (\<forall>d. clean_prices df = Inr d \<longrightarrow> length (rows d) = length (rows df))
   \<and> length (rows (coerce_numeric_columns parse df)) = length (rows df)
   \<and> (\<forall>d. add_days_booked df = Inr d \<longrightarrow> length (rows d) = length (rows df))
   \<and> length (rows (add_is_superhost df)) = length (rows df)
   \<and> (\<forall>d. superhost_analysis df = Inr d \<longrightarrow> length (rows d) = length (rows df))
   \<and> (\<forall>out. run parse df = Inr out \<longrightarrow>
         length (rows out) = length (rows (prepare df)) \<and> length (rows out) \<le> length (rows df))"
proof -
  have 1: "length (rows (clean_column_names df)) = length (rows df)" for df
    by (simp add: clean_column_names_def)
  have 2: "length (rows (drop_columns df)) = length (rows df)" for df
    by (simp add: drop_columns_def)
  have 5: "length (rows d) = length (rows df)" if "clean_prices df = Inr d" for d
    using clean_prices_Inr(2) [OF that] by (rule list_all2_length_rows)
  have 6: "length (rows (coerce_numeric_columns parse df)) = length (rows df)"
    by (simp add: coerce_numeric_columns_eq)
  have 7: "length (rows d) = length (rows df)" if "add_days_booked df = Inr d" for d
    using add_days_booked_Inr [OF that] by (auto dest: list_all2_lengthD)
  have 8: "length (rows (add_is_superhost df)) = length (rows df)"
    by (simp add: add_is_superhost_eq)
  have 9: "length (rows d) = length (rows df)" if "superhost_analysis df = Inr d" for d df
    unfolding superhost_analysis_Inr(4) [OF that] set_col_col_values by simp
  have 10: "length (rows out) = length (rows (prepare df)) \<and> length (rows out) \<le> length (rows df)"
    if run_out: "run parse df = Inr out" for out
  proof -
    obtain d where d: "clean_and_derive parse df = Inr d" and s: "superhost_analysis d = Inr out"
      using run_Inr [OF run_out] by blast
    have "length (rows d) = length (rows (prepare df))"
      using clean_and_derive_rows(3) [OF d] by (rule list_all2_length_rows)
    then have a: "length (rows out) = length (rows (prepare df))" using 9 [OF s] by simp
    have "length (rows (prepare df)) \<le> length (rows (drop_columns (clean_column_names df)))"
      unfolding prepare_def by (rule length_drop_duplicates)
    then show ?thesis using a 1 [of df] 2 [of "clean_column_names df"] by simp
  qed
  show ?thesis
    using 1 2 length_drop_duplicates drop_duplicates_idem 5 6 7 8 9 10 by blast
qed

theorem row_count_never_grows_witness:
  "clean_prices (prepare listing_example) = Inr (projr (clean_prices (prepare listing_example)))
   \<and> length (rows (projr (clean_prices (prepare listing_example)))) = 2
   \<and> add_days_booked (coerce_numeric_columns (\<lambda>s. None) (projr (clean_prices (prepare listing_example))))
       = Inr (projr (add_days_booked
               (coerce_numeric_columns (\<lambda>s. None) (projr (clean_prices (prepare listing_example))))))
   \<and> length (rows (projr (add_days_booked
               (coerce_numeric_columns (\<lambda>s. None) (projr (clean_prices (prepare listing_example))))))) = 2
   \<and> superhost_analysis (projr (clean_and_derive (\<lambda>s. None) listing_example))
       = Inr (projr (run (\<lambda>s. None) listing_example))
   \<and> run (\<lambda>s. None) listing_example = Inr (projr (run (\<lambda>s. None) listing_example))
   \<and> length (rows (projr (run (\<lambda>s. None) listing_example))) = 2
   \<and> length (rows listing_example) = 2
   \<and> length (rows (drop_duplicates (listing_example\<lparr>rows := [first_listing, second_listing, first_listing]\<rparr>))) = 2"
proof -
  let ?P = "\<lambda>s::string. None :: number option"
  let ?p = "prepare listing_example"
  obtain out where out: "run ?P listing_example = Inr out"
    using run_ok [OF example_runnable] by blast
  then obtain d where d: "clean_and_derive ?P listing_example = Inr d"
    and s: "superhost_analysis d = Inr out"
    using run_Inr by blast
  then obtain d1 d3 where d1: "clean_prices ?p = Inr d1"
    and d3: "add_days_booked (coerce_numeric_columns ?P d1) = Inr d3"
    using clean_and_derive_Inr by blast
  have len_p: "length (rows ?p) = 2"
    using arg_cong [OF example_rows, of length] by simp
  have l1: "length (rows d1) = 2"
    using row_count_never_grows [of ?p ?P] d1 len_p by simp
  have l2: "length (rows (coerce_numeric_columns ?P d1)) = 2"
    using row_count_never_grows [of d1 ?P] l1 by simp
  have l3: "length (rows d3) = 2"
    using row_count_never_grows [of "coerce_numeric_columns ?P d1" ?P] d3 l2 by simp
  have l4: "length (rows out) = 2"
    using row_count_never_grows [of listing_example ?P] out len_p by simp
  have key: "map second_listing (columns listing_example) \<noteq> map first_listing (columns listing_example)"
    by (simp add: listing_example_def first_listing_def second_listing_def)
  have l5: "length (rows (drop_duplicates
      (listing_example\<lparr>rows := [first_listing, second_listing, first_listing]\<rparr>))) = 2"
    using key by (simp add: drop_duplicates_def listing_example_def)
  have "length (rows listing_example) = 2" by (simp add: listing_example_def)
  then show ?thesis using out d s d1 d3 l1 l3 l4 l5 by simp
qed

subsection \<open>The lookup under the strict policy\<close>

lemma idxmax_of_counts_Nil: "idxmax_of_counts [] = Inl (ValueError ''idxmax'')"
  by (simp add: idxmax_of_counts_def)

lemma strict_room_no_match:
  assumes "\<forall>s. Str s \<in> set (col_values df ''cancellation_policy'') \<longrightarrow> lower s \<noteq> ''strict''"
  shows "isl (strict_room df)"
proof (cases "str_lower (col_values df ''cancellation_policy'')")
  case (Inl e)
  then show ?thesis by (simp add: strict_room_def)
next
  case (Inr policy)
  then have policy: "policy = map (\<lambda>c. case c of Str s \<Rightarrow> Str (lower s) | _ \<Rightarrow> Null)
      (col_values df ''cancellation_policy'')"
    by (auto simp: str_lower_def split: if_splits)
  have "p \<noteq> Str ''strict''" if p_in: "p \<in> set policy" for p
  proof -
    obtain c where c: "c \<in> set (col_values df ''cancellation_policy'')"
      and p: "p = (case c of Str s \<Rightarrow> Str (lower s) | _ \<Rightarrow> Null)"
      using p_in unfolding policy by auto
    show ?thesis using assms c p by (cases c) auto
  qed
  then have "filter (\<lambda>(p, room). p = Str ''strict'') (zip policy (col_values df ''room_type'')) = []"
    by (auto simp: filter_empty_conv dest: set_zip_leftD)
  then show ?thesis using Inr by (simp add: strict_room_def idxmax_of_counts_Nil)
qed

text \<open>
  Claim C10. When the frame has both \<^verbatim>\<open>cancellation_policy\<close> and \<^verbatim>\<open>room_type\<close> and no
  listing whose policy is \<^verbatim>\<open>strict\<close> in any case, the script does not reach the export:
  the lookup of the most frequent room type under the strict policy is not skipped, it
  raises (ValueError from \<^verbatim>\<open>idxmax\<close> of an empty count, or AttributeError from \<^verbatim>\<open>.str\<close>
  when the column holds no text at all), and nothing catches it.
\<close>

theorem strict_lookup_aborts:
  assumes "''cancellation_policy'' \<in> set (columns (prepare df))"
    and "''room_type'' \<in> set (columns (prepare df))"
    and "\<forall>s. Str s \<in> set (col_values (prepare df) ''cancellation_policy'') \<longrightarrow> lower s \<noteq> ''strict''"
  shows "isl (run parse df)
       \<and> (\<forall>d. clean_and_derive parse df = Inr d \<longrightarrow>
             ''cancellation_policy'' \<in> set (columns d) \<and> ''room_type'' \<in> set (columns d)
             \<and> isl (strict_room d) \<and> isl (exploratory_analysis d))"
proof -
  have step: "''cancellation_policy'' \<in> set (columns d) \<and> ''room_type'' \<in> set (columns d)
             \<and> isl (strict_room d) \<and> isl (exploratory_analysis d)"
    if d: "clean_and_derive parse df = Inr d" for d
  proof -
    have cols: "''cancellation_policy'' \<in> set (columns d)" "''room_type'' \<in> set (columns d)"
      using clean_and_derive_rows(1) [OF d] assms(1,2) by blast+
    have "col_values d ''cancellation_policy'' = col_values (prepare df) ''cancellation_policy''"
      using d by (rule clean_and_derive_other) (simp add: written_def numeric_columns_def)
    then have s: "isl (strict_room d)" using assms(3) by (intro strict_room_no_match) simp
    then obtain e where "strict_room d = Inl e" by (cases "strict_room d") auto
    then have "isl (exploratory_analysis d)"
      using cols by (simp add: exploratory_analysis_def)
    then show ?thesis using cols s by blast
  qed
  have "isl (run parse df)"
  proof (cases "clean_and_derive parse df")
    case (Inl e)
    then show ?thesis by (simp add: run_def)
  next
    case (Inr d)
    then obtain e where "exploratory_analysis d = Inl e"
      using step by (cases "exploratory_analysis d") auto
    then show ?thesis using Inr by (simp add: run_def)
  qed
  then show ?thesis using step by blast
qed

lemma no_strict_names:
  "normalize_name ''cancellation_policy'' = ''cancellation_policy''"
  "normalize_name ''room type'' = ''room_type''"
  by (simp_all add: normalize_name_def lower_def lower_char_def strip_def is_space_def
      replace_str_hit replace_str_miss)

lemma no_strict_prepared:
  "columns (prepare no_strict_example) = [''cancellation_policy'', ''room_type'']"
  "col_values (prepare no_strict_example) ''cancellation_policy'' = [Str ''Moderate'']"
  by (simp_all add: prepare_def drop_duplicates_def drop_columns_def clean_column_names_def
      no_strict_example_def no_strict_names columns_to_drop_def relabel_def col_values_def)

theorem strict_lookup_aborts_witness:
  "columns (prepare no_strict_example) = [''cancellation_policy'', ''room_type'']
   \<and> col_values (prepare no_strict_example) ''cancellation_policy'' = [Str ''Moderate'']
   \<and> lower ''Moderate'' = ''moderate''
   \<and> isl (run (\<lambda>s. None) no_strict_example)
   \<and> clean_and_derive (\<lambda>s. None) no_strict_example =
       Inr (projr (clean_and_derive (\<lambda>s. None) no_strict_example))
   \<and> isl (strict_room (projr (clean_and_derive (\<lambda>s. None) no_strict_example)))"
proof -
  have l: "lower ''Moderate'' = ''moderate''" by (simp add: lower_def lower_char_def)
  have h: "\<forall>s. Str s \<in> set (col_values (prepare no_strict_example) ''cancellation_policy'')
      \<longrightarrow> lower s \<noteq> ''strict''"
    by (simp add: no_strict_prepared l)
  have c: "''cancellation_policy'' \<in> set (columns (prepare no_strict_example))"
    "''room_type'' \<in> set (columns (prepare no_strict_example))"
    by (simp_all add: no_strict_prepared)
  note t = strict_lookup_aborts [OF c h, of "\<lambda>s. None"]
  have ok: "clean_and_derive (\<lambda>s. None) no_strict_example =
       Inr (projr (clean_and_derive (\<lambda>s. None) no_strict_example))"
    by (intro Inr_projr clean_and_derive_ok) (simp_all add: no_strict_prepared)
  show ?thesis using t ok l no_strict_prepared by blast
qed

subsection \<open>The characters of a float literal\<close>
















subsection \<open>Largest and smallest group means\<close>

lemma neg_key_le: "neg_key x \<le> neg_key y \<longleftrightarrow> num_key y \<le> num_key x"
  by (cases x; cases y) (auto simp: neg_key_def num_key_def)

lemma num_key_inj: "num_key x = num_key y \<longleftrightarrow> x = y"
  by (cases x; cases y) (auto simp: num_key_def)

lemma neg_key_inj: "neg_key x = neg_key y \<longleftrightarrow> x = y"
  by (cases x; cases y) (auto simp: neg_key_def)

lemma sorted_descending:
  "sorted (rev (map (\<lambda>(k, x). num_key x) xs)) \<longleftrightarrow> sorted (map (\<lambda>(k, x). neg_key x) xs)"
proof -
  have "sorted (rev (map (\<lambda>(k, x). num_key x) xs))
        \<longleftrightarrow> sorted_wrt (\<lambda>a b. (case b of (k, x) \<Rightarrow> num_key x) \<le> (case a of (k, x) \<Rightarrow> num_key x)) xs"
    by (simp add: sorted_wrt_rev sorted_wrt_map)
  also have "\<dots> \<longleftrightarrow> sorted_wrt (\<lambda>a b. (case a of (k, x) \<Rightarrow> neg_key x) \<le> (case b of (k, x) \<Rightarrow> neg_key x)) xs"
    by (rule arg_cong [where f = "\<lambda>P. sorted_wrt P xs"]) (auto simp: fun_eq_iff neg_key_le)
  also have "\<dots> \<longleftrightarrow> sorted (map (\<lambda>(k, x). neg_key x) xs)"
    by (simp add: sorted_wrt_map)
  finally show ?thesis .
qed

lemma distinct_keep_first: "distinct (keep_first (\<lambda>v. v) xs)"
proof (induction "\<lambda>v::'a. v" xs rule: keep_first.induct)
  case 1
  show ?case by simp
next
  case (2 x xs)
  have "set (keep_first (\<lambda>v. v) (filter (\<lambda>y. y \<noteq> x) xs)) \<subseteq> set (filter (\<lambda>y. y \<noteq> x) xs)"
    by (rule set_keep_first)
  then have "x \<notin> set (keep_first (\<lambda>v. v) (filter (\<lambda>y. y \<noteq> x) xs))" by auto
  then show ?case using 2 by simp
qed

lemma groupby_mean_keys:
  assumes "groupby_mean by col df = Inr avg"
  shows "distinct (map fst avg)"
proof -
  let ?keys = "sort_key group_order
      (keep_first (\<lambda>v. v) (filter (\<lambda>c. c \<noteq> Null) (col_values df by)))"
  have "avg = map (\<lambda>k. (k, mean (map (\<lambda>r. r col) (filter (\<lambda>r. r by = k) (rows df))))) ?keys"
    using assms by (auto simp: groupby_mean_def split: if_splits)
  then have "map fst avg = ?keys" by (simp add: comp_def)
  then show ?thesis by (simp add: distinct_keep_first)
qed

lemma valid_rows_Cons:
  "valid_rows ((k, m) # tab) =
     (case m of Num n \<Rightarrow> (k, n) # valid_rows tab | _ \<Rightarrow> valid_rows tab)"
  by (cases m) (simp_all add: valid_rows_def List.map_filter_simps)

lemma valid_rows_Nil [simp]: "valid_rows [] = []"
  by (simp add: valid_rows_def List.map_filter_simps)

lemma valid_rows_fst: "set (map fst (valid_rows tab)) \<subseteq> set (map fst tab)"
proof (induction tab)
  case Nil
  show ?case by simp
next
  case (Cons a tab)
  obtain k m where a: "a = (k, m)" by (cases a)
  show ?case using Cons unfolding a by (cases m) (auto simp: valid_rows_Cons)
qed

lemma valid_rows_distinct: "distinct (map fst tab) \<Longrightarrow> distinct (map fst (valid_rows tab))"
proof (induction tab)
  case Nil
  show ?case by simp
next
  case (Cons a tab)
  obtain k m where a: "a = (k, m)" by (cases a)
  have "k \<notin> set (map fst (valid_rows tab))" using Cons.prems valid_rows_fst [of tab] a by auto
  then show ?case using Cons unfolding a by (cases m) (auto simp: valid_rows_Cons)
qed

lemma valid_rows_back: "valid_rows (map (\<lambda>(k, x). (k, Num x)) xs) = xs"
proof (induction xs)
  case Nil
  show ?case by simp
next
  case (Cons a xs)
  obtain k x where a: "a = (k, x)" by (cases a)
  show ?case using Cons unfolding a by (simp add: valid_rows_Cons)
qed

lemma take_valid:
  assumes "n \<le> length xs"
  shows "take n (map (\<lambda>(k, x). (k, Num x)) xs @ rest) = map (\<lambda>(k, x). (k, Num x)) (take n xs)"
  using assms by (simp add: take_map)

lemma filter_is_singleton:
  assumes "distinct xs" "k \<in> set xs" "\<And>x. x \<in> set xs \<Longrightarrow> P x \<longleftrightarrow> x = k"
  shows "filter P xs = [k]"
  using assms
proof (induction xs)
  case Nil
  then show ?case by simp
next
  case (Cons a xs)
  show ?case
  proof (cases "a = k")
    case True
    then have "k \<notin> set xs" using Cons.prems(1) by simp
    then have "filter P xs = []" using Cons.prems(3) by (auto simp: filter_empty_conv)
    then show ?thesis using True Cons.prems(3) by simp
  next
    case False
    then have "\<not> P a" using Cons.prems(3) by simp
    moreover have "filter P xs = [k]" using Cons False by (intro Cons.IH) auto
    ultimately show ?thesis by simp
  qed
qed

lemma descending_is_reverse:
  assumes "distinct (map snd V)"
  shows "sort_key (\<lambda>(k, x). neg_key x) V = rev (sort_key (\<lambda>(k, x). num_key x) V)"
proof (rule properties_for_sort_key)
  let ?s = "sort_key (\<lambda>(k, x). num_key x) V"
  have dV: "distinct V" using assms by (simp add: distinct_map)
  show "mset (rev ?s) = mset V" by simp
  show "sorted (map (\<lambda>(k, x). neg_key x) (rev ?s))"
    using sorted_descending [of "rev ?s"] by (simp add: rev_map [symmetric])
  fix k assume k: "k \<in> set (rev ?s)"
  then have kV: "k \<in> set V" by simp
  have same: "(case k of (a, x) \<Rightarrow> neg_key x) = (case y of (a, x) \<Rightarrow> neg_key x) \<longleftrightarrow> y = k"
    if "y \<in> set V" for y
  proof -
    have "snd y = snd k \<longleftrightarrow> y = k"
      using assms that kV by (auto simp: distinct_map inj_on_def)
    then show ?thesis by (cases k; cases y) (auto simp: neg_key_inj)
  qed
  have "filter (\<lambda>y. (case k of (a, x) \<Rightarrow> neg_key x) = (case y of (a, x) \<Rightarrow> neg_key x)) (rev ?s) = [k]"
    using k same by (intro filter_is_singleton) (simp_all add: dV)
  moreover have "filter (\<lambda>y. (case k of (a, x) \<Rightarrow> neg_key x) = (case y of (a, x) \<Rightarrow> neg_key x)) V = [k]"
    using kV same dV by (intro filter_is_singleton) simp_all
  ultimately show "filter (\<lambda>y. (case k of (a, x) \<Rightarrow> neg_key x) = (case y of (a, x) \<Rightarrow> neg_key x)) (rev ?s)
      = filter (\<lambda>y. (case k of (a, x) \<Rightarrow> neg_key x) = (case y of (a, x) \<Rightarrow> neg_key x)) V"
    by simp
qed

lemma top_10_cheap_valid:
  assumes "10 \<le> length (valid_rows avg)"
  shows "top_10_cheap avg =
     map (\<lambda>(k, x). (k, Num x)) (take 10 (sort_key (\<lambda>(k, x). num_key x) (valid_rows avg)))"
  unfolding top_10_cheap_def nsmallest_def using assms by (intro take_valid) simp

lemma top_10_expensive_valid:
  assumes "10 \<le> length (valid_rows avg)"
  shows "top_10_expensive avg =
     map (\<lambda>(k, x). (k, Num x)) (take 10 (sort_key (\<lambda>(k, x). neg_key x) (valid_rows avg)))"
  unfolding top_10_expensive_def nlargest_def using assms by (intro take_valid) simp

lemma map_fst_back: "map fst (map (\<lambda>(k, x). (k, Num x)) xs) = map fst xs"
  by (induction xs) auto

text \<open>
  Claim C5, amended. When at least 20 neighborhoods have a mean price, each of the two
  lists has ten entries, all with a mean; the list of the most expensive is in descending
  order of the mean and the list of the cheapest in ascending order. The two lists share
  no neighborhood when no two of the means are equal. (With equal means both calls break
  the tie towards the rows that come first.)
\<close>

theorem top_and_bottom_ten:
  assumes "avg_price_neighborhood df = Inr avg" and "20 \<le> length (valid_rows avg)"
  shows "length (top_10_expensive avg) = 10 \<and> length (valid_rows (top_10_expensive avg)) = 10
       \<and> length (top_10_cheap avg) = 10 \<and> length (valid_rows (top_10_cheap avg)) = 10
       \<and> sorted (rev (map (\<lambda>(k, x). num_key x) (valid_rows (top_10_expensive avg))))
       \<and> sorted (map (\<lambda>(k, x). num_key x) (valid_rows (top_10_cheap avg)))
       \<and> (distinct (map snd (valid_rows avg)) \<longrightarrow>
            set (map fst (top_10_expensive avg)) \<inter> set (map fst (top_10_cheap avg)) = {})"
proof -
  let ?V = "valid_rows avg"
  let ?s = "sort_key (\<lambda>(k, x). num_key x) ?V"
  let ?t = "sort_key (\<lambda>(k, x). neg_key x) ?V"
  have ten: "10 \<le> length ?V" using assms(2) by simp
  note c = top_10_cheap_valid [OF ten] and e = top_10_expensive_valid [OF ten]
  have vc: "valid_rows (top_10_cheap avg) = take 10 ?s" unfolding c by (rule valid_rows_back)
  have ve: "valid_rows (top_10_expensive avg) = take 10 ?t" unfolding e by (rule valid_rows_back)
  have lens: "length (top_10_expensive avg) = 10" "length (valid_rows (top_10_expensive avg)) = 10"
    "length (top_10_cheap avg) = 10" "length (valid_rows (top_10_cheap avg)) = 10"
    using ten unfolding vc ve by (simp_all add: c e)
  have "sorted (map (\<lambda>(k, x). num_key x) ?s)" by (rule sorted_sort_key)
  then have "sorted (take 10 (map (\<lambda>(k, x). num_key x) ?s))" by (rule sorted_wrt_take)
  then have sc: "sorted (map (\<lambda>(k, x). num_key x) (valid_rows (top_10_cheap avg)))"
    unfolding vc by (simp add: take_map)
  have "sorted (map (\<lambda>(k, x). neg_key x) ?t)" by (rule sorted_sort_key)
  then have "sorted (take 10 (map (\<lambda>(k, x). neg_key x) ?t))" by (rule sorted_wrt_take)
  then have "sorted (map (\<lambda>(k, x). neg_key x) (take 10 ?t))" by (simp add: take_map)
  then have se: "sorted (rev (map (\<lambda>(k, x). num_key x) (valid_rows (top_10_expensive avg))))"
    unfolding ve sorted_descending .
  have disj: "set (map fst (top_10_expensive avg)) \<inter> set (map fst (top_10_cheap avg)) = {}"
    if d: "distinct (map snd ?V)"
  proof -
    have names: "distinct (map fst ?V)"
      using assms(1) unfolding avg_price_neighborhood_def
      by (intro valid_rows_distinct groupby_mean_keys)
    have "mset (map fst ?s) = mset (map fst ?V)" by simp
    then have ds: "distinct (map fst ?s)" using names by (metis mset_eq_imp_distinct_iff)
    have len: "length (map fst ?s) = length ?V" by simp
    have t: "?t = rev ?s" using d by (rule descending_is_reverse)
    have "map fst (take 10 ?t) = rev (drop (length ?V - 10) (map fst ?s))"
      unfolding t by (simp add: take_rev drop_map rev_map)
    then have "set (map fst (top_10_expensive avg)) = set (drop (length ?V - 10) (map fst ?s))"
      unfolding e map_fst_back by simp
    moreover have "set (map fst (top_10_cheap avg)) = set (take 10 (map fst ?s))"
      unfolding c map_fst_back by (simp add: take_map)
    moreover have "set (take 10 (map fst ?s)) \<inter> set (drop (length ?V - 10) (map fst ?s)) = {}"
      using ds by (rule set_take_disj_set_drop_if_distinct) (use assms(2) in simp)
    ultimately show ?thesis by blast
  qed
  show ?thesis using lens sc se disj by blast
qed

lemma sort_key_constant:
  assumes "\<And>x. x \<in> set xs \<Longrightarrow> f x = c"
  shows "sort_key f xs = xs"
  using assms
proof (induction xs)
  case Nil
  show ?case by simp
next
  case (Cons a xs)
  then have "sort_key f xs = xs" by simp
  then show ?case using Cons.prems by (cases xs) simp_all
qed

lemma ties_avg:
  "avg_price_neighborhood ties_example =
     Inr (map (\<lambda>n. (Str n, Num (Fin 100)))
       [''a'', ''b'', ''c'', ''d'', ''e'', ''f'', ''g'', ''h'', ''i'', ''j'',
        ''k'', ''l'', ''m'', ''n'', ''o'', ''p'', ''q'', ''r'', ''s'', ''t''])"
  by (simp add: avg_price_neighborhood_def groupby_mean_def ties_example_def col_values_def
      group_order_def mean_def numbers_of_def List.map_filter_simps priced_listing_def)

text \<open>
  Claim C5 as stated fails when means tie: with twenty neighborhoods that all have the
  mean price 100, \<^verbatim>\<open>nlargest\<close> and \<^verbatim>\<open>nsmallest\<close> both keep the first ten rows, so the
  two lists are the same list.
\<close>

theorem tied_means_overlap:
  "avg_price_neighborhood ties_example = Inr (projr (avg_price_neighborhood ties_example))
   \<and> length (valid_rows (projr (avg_price_neighborhood ties_example))) = 20
   \<and> map fst (top_10_expensive (projr (avg_price_neighborhood ties_example))) =
       map Str [''a'', ''b'', ''c'', ''d'', ''e'', ''f'', ''g'', ''h'', ''i'', ''j'']
   \<and> map fst (top_10_cheap (projr (avg_price_neighborhood ties_example))) =
       map Str [''a'', ''b'', ''c'', ''d'', ''e'', ''f'', ''g'', ''h'', ''i'', ''j'']
   \<and> set (map fst (top_10_expensive (projr (avg_price_neighborhood ties_example))))
       \<inter> set (map fst (top_10_cheap (projr (avg_price_neighborhood ties_example)))) \<noteq> {}"
proof -
  let ?names = "[''a'', ''b'', ''c'', ''d'', ''e'', ''f'', ''g'', ''h'', ''i'', ''j'',
        ''k'', ''l'', ''m'', ''n'', ''o'', ''p'', ''q'', ''r'', ''s'', ''t'']"
  let ?avg = "map (\<lambda>n. (Str n, Num (Fin 100))) ?names"
  let ?V = "map (\<lambda>n. (Str n, Fin 100)) ?names"
  have p: "projr (avg_price_neighborhood ties_example) = ?avg" by (simp add: ties_avg)
  have v: "valid_rows ?avg = ?V" by (simp add: valid_rows_Cons)
  have s1: "sort_key (\<lambda>(k, x). num_key x) ?V = ?V"
    by (rule sort_key_constant [where c = "num_key (Fin 100)"]) auto
  have s2: "sort_key (\<lambda>(k, x). neg_key x) ?V = ?V"
    by (rule sort_key_constant [where c = "neg_key (Fin 100)"]) auto
  have ten: "10 \<le> length (valid_rows ?avg)" unfolding v by simp
  have c: "map fst (top_10_cheap ?avg) =
      map Str [''a'', ''b'', ''c'', ''d'', ''e'', ''f'', ''g'', ''h'', ''i'', ''j'']"
    unfolding top_10_cheap_valid [OF ten] map_fst_back v s1 by simp
  have e: "map fst (top_10_expensive ?avg) =
      map Str [''a'', ''b'', ''c'', ''d'', ''e'', ''f'', ''g'', ''h'', ''i'', ''j'']"
    unfolding top_10_expensive_valid [OF ten] map_fst_back v s2 by simp
  have "length (valid_rows ?avg) = 20" unfolding v by simp
  moreover have "avg_price_neighborhood ties_example = Inr ?avg" by (rule ties_avg)
  ultimately show ?thesis unfolding p c e by simp
qed

lemma spread_avg:
  "avg_price_neighborhood spread_example =
     Inr (map (\<lambda>(n, p). (Str n, Num (Fin p)))
        [(''a'', 1), (''b'', 2), (''c'', 3), (''d'', 4), (''e'', 5), (''f'', 6), (''g'', 7),
         (''h'', 8), (''i'', 9), (''j'', 10), (''k'', 11), (''l'', 12), (''m'', 13), (''n'', 14),
         (''o'', 15), (''p'', 16), (''q'', 17), (''r'', 18), (''s'', 19), (''t'', 20)])"
  by (simp add: avg_price_neighborhood_def groupby_mean_def spread_example_def col_values_def
      group_order_def mean_def numbers_of_def List.map_filter_simps priced_listing_def)

text \<open>
  Twenty neighborhoods with the mean prices 1 to 20: the ten most expensive are t down to
  k, the ten cheapest are a up to j.
\<close>

theorem top_and_bottom_ten_witness:
  "avg_price_neighborhood spread_example = Inr (projr (avg_price_neighborhood spread_example))
   \<and> length (valid_rows (projr (avg_price_neighborhood spread_example))) = 20
   \<and> distinct (map snd (valid_rows (projr (avg_price_neighborhood spread_example))))
   \<and> length (top_10_expensive (projr (avg_price_neighborhood spread_example))) = 10
   \<and> length (top_10_cheap (projr (avg_price_neighborhood spread_example))) = 10
   \<and> sorted (rev (map (\<lambda>(k, x). num_key x)
        (valid_rows (top_10_expensive (projr (avg_price_neighborhood spread_example))))))
   \<and> sorted (map (\<lambda>(k, x). num_key x)
        (valid_rows (top_10_cheap (projr (avg_price_neighborhood spread_example)))))
   \<and> set (map fst (top_10_expensive (projr (avg_price_neighborhood spread_example))))
       \<inter> set (map fst (top_10_cheap (projr (avg_price_neighborhood spread_example)))) = {}
   \<and> map fst (top_10_cheap (projr (avg_price_neighborhood spread_example))) =
       map Str [''a'', ''b'', ''c'', ''d'', ''e'', ''f'', ''g'', ''h'', ''i'', ''j'']"
proof -
  let ?pairs = "[(''a'', 1), (''b'', 2), (''c'', 3), (''d'', 4), (''e'', 5), (''f'', 6), (''g'', 7),
         (''h'', 8), (''i'', 9), (''j'', 10), (''k'', 11), (''l'', 12), (''m'', 13), (''n'', 14),
         (''o'', 15), (''p'', 16), (''q'', 17), (''r'', 18), (''s'', 19), (''t'', 20)] :: (string \<times> rat) list"
  let ?avg = "map (\<lambda>(n, p). (Str n, Num (Fin p))) ?pairs"
  let ?V = "map (\<lambda>(n, p). (Str n, Fin p)) ?pairs"
  have a: "avg_price_neighborhood spread_example = Inr ?avg" by (rule spread_avg)
  have p: "projr (avg_price_neighborhood spread_example) = ?avg" by (simp add: spread_avg)
  have v: "valid_rows ?avg = ?V" by (simp add: valid_rows_Cons)
  have len: "20 \<le> length (valid_rows ?avg)" unfolding v by simp
  have d: "distinct (map snd (valid_rows ?avg))" unfolding v by simp
  note t = top_and_bottom_ten [OF a len]
  have "sorted (map (\<lambda>(k, x). num_key x) ?V)" by (simp add: num_key_def)
  then have s: "sort_key (\<lambda>(k, x). num_key x) ?V = ?V" by (rule sort_key_id_if_sorted)
  have c: "map fst (top_10_cheap ?avg) =
      map Str [''a'', ''b'', ''c'', ''d'', ''e'', ''f'', ''g'', ''h'', ''i'', ''j'']"
  proof -
    have ten: "10 \<le> length (valid_rows ?avg)" unfolding v by simp
    have "map fst (top_10_cheap ?avg) =
        map fst (take 10 (sort_key (\<lambda>(k, x). num_key x) (valid_rows ?avg)))"
      by (simp only: top_10_cheap_valid [OF ten] map_fst_back)
    also have "\<dots> = map fst (take 10 ?V)" by (simp only: v s)
    also have "\<dots> = map Str [''a'', ''b'', ''c'', ''d'', ''e'', ''f'', ''g'', ''h'', ''i'', ''j'']"
      by simp
    finally show ?thesis .
  qed
  have "length (valid_rows ?avg) = 20" unfolding v by simp
  then show ?thesis unfolding p using a t d c by blast
qed

end
